theory Spec2Isabelle
  imports Main "HOL-Library.Char_ord" "HOL-Library.List_Lexorder"
begin

section \<open>Python strings\<close>

text \<open>
  A Python \<^verbatim>\<open>str\<close> is modelled as a \<^typ>\<open>string\<close>, one \<^typ>\<open>char\<close> per code point, over the
  ASCII repertoire: the character classes below are the ones of Python 3 on code points
  below 128, and a character above that range is treated as a caseless symbol that is
  neither whitespace nor a digit. Strings are compared as Python compares them, code
  point by code point (the lexicographic order on lists over the order on characters).
\<close>

datatype py_error = ValueError | AttributeError | TypeError

text \<open>\<^verbatim>\<open>str.isspace\<close>, which is also the class \<^verbatim>\<open>\s\<close> of \<^verbatim>\<open>re\<close> on a \<^verbatim>\<open>str\<close> pattern:
  tab, line feed, vertical tab, form feed, carriage return, the four separators
  \<^verbatim>\<open>\x1c\<close> to \<^verbatim>\<open>\x1f\<close>, and the space.\<close>

definition is_space :: "char \<Rightarrow> bool" where
  "is_space c \<longleftrightarrow> c \<in> set [CHR 0x09, CHR 0x0A, CHR 0x0B, CHR 0x0C, CHR 0x0D,
                            CHR 0x1C, CHR 0x1D, CHR 0x1E, CHR 0x1F, CHR 0x20]"

text \<open>The class \<^verbatim>\<open>\d\<close>.\<close>

definition is_digit :: "char \<Rightarrow> bool" where
  "is_digit c \<longleftrightarrow> c \<in> set ''0123456789''"

text \<open>The class \<^verbatim>\<open>[A-Za-z]\<close>.\<close>

definition is_alpha :: "char \<Rightarrow> bool" where
  "is_alpha c \<longleftrightarrow> c \<in> set ''ABCDEFGHIJKLMNOPQRSTUVWXYZabcdefghijklmnopqrstuvwxyz''"

definition is_newline :: "char \<Rightarrow> bool" where
  "is_newline c \<longleftrightarrow> c = CHR 0x0A"

definition lower_char :: "char \<Rightarrow> char" where
  "lower_char c =
     (case map_of (zip ''ABCDEFGHIJKLMNOPQRSTUVWXYZ'' ''abcdefghijklmnopqrstuvwxyz'') c of
        None \<Rightarrow> c | Some l \<Rightarrow> l)"

text \<open>\<^verbatim>\<open>str.lower\<close> and \<^verbatim>\<open>str.casefold\<close> agree on ASCII.\<close>

definition lower :: "string \<Rightarrow> string" where
  "lower s = map lower_char s"

definition casefold :: "string \<Rightarrow> string" where
  "casefold s = map lower_char s"

text \<open>\<^verbatim>\<open>str.strip()\<close> with no argument.\<close>

definition strip :: "string \<Rightarrow> string" where
  "strip s = rev (dropWhile is_space (rev (dropWhile is_space s)))"

text \<open>\<^verbatim>\<open>s.split(d)\<close> for a one-character separator: never an empty list.\<close>

fun split_on :: "char \<Rightarrow> string \<Rightarrow> string list" where
  "split_on d [] = [[]]"
| "split_on d (c # cs) =
     (if c = d then [] # split_on d cs
      else (case split_on d cs of [] \<Rightarrow> [[c]] | p # ps \<Rightarrow> (c # p) # ps))"

subsection \<open>Decimal numerals\<close>

definition digit_val :: "char \<Rightarrow> nat" where
  "digit_val c = of_char c - 48"

definition digit_char :: "nat \<Rightarrow> char" where
  "digit_char n = ''0123456789'' ! n"

text \<open>The value of a digit string, most significant digit first.\<close>

definition dec_val :: "string \<Rightarrow> nat" where
  "dec_val s = foldl (\<lambda>a c. 10 * a + digit_val c) 0 s"

text \<open>The digits of a natural number, without leading zeros (\<^verbatim>\<open>str(n)\<close>).\<close>

fun nat_digits :: "nat \<Rightarrow> string" where
  "nat_digits n = (if n < 10 then [digit_char n] else nat_digits (n div 10) @ [digit_char (n mod 10)])"

declare nat_digits.simps [simp del]

text \<open>The format \<^verbatim>\<open>{n:0wd}\<close>: the sign counts in the width, zeros fill after it.\<close>

definition zfill :: "nat \<Rightarrow> string \<Rightarrow> string" where
  "zfill w s = replicate (w - length s) CHR ''0'' @ s"

definition fmt_0d :: "nat \<Rightarrow> int \<Rightarrow> string" where
  "fmt_0d w n = (if n < 0 then CHR ''-'' # zfill (w - 1) (nat_digits (nat (- n)))
                 else zfill w (nat_digits (nat n)))"

text \<open>
  \<^verbatim>\<open>int(x)\<close> on a string: surrounding whitespace is ignored, one sign is allowed, and
  the digits may be grouped by single underscores. \<open>None\<close> is Python's \<^verbatim>\<open>ValueError\<close>.
\<close>

definition int_digits :: "string \<Rightarrow> nat option" where
  "int_digits s =
     (let parts = split_on CHR ''_'' s
      in if list_all (\<lambda>p. p \<noteq> [] \<and> list_all is_digit p) parts
         then Some (dec_val (concat parts)) else None)"

definition py_int :: "string \<Rightarrow> int option" where
  "py_int x =
     (case strip x of
        [] \<Rightarrow> None
      | c # cs \<Rightarrow>
          if c = CHR ''-'' then map_option (\<lambda>n. - int n) (int_digits cs)
          else if c = CHR ''+'' then map_option int (int_digits cs)
          else map_option int (int_digits (c # cs)))"

section \<open>Regular expressions\<close>

text \<open>
  The patterns of the program use character classes with greedy bounded or unbounded
  repetition, concatenation, alternation, capture groups and the end anchor. The matcher
  is Python's backtracking matcher as a list of successes: \<open>ends r s\<close> lists, in the
  order in which backtracking tries them, the ways \<open>r\<close> can match a prefix of \<open>s\<close>, each
  as the matched text, the rest of the string, and the groups captured. The first
  element is the match Python reports.

  \<^verbatim>\<open>re.match\<close> anchors the pattern where the string begins, where \<^verbatim>\<open>^\<close> always
  holds (no pattern here is compiled with \<^verbatim>\<open>re.MULTILINE\<close>), so the leading \<^verbatim>\<open>^\<close> of a
  pattern has no constructor.
\<close>

datatype re =
    Cls "char \<Rightarrow> bool" nat "nat option"
  | Cat re re
  | Alt re re
  | Grp nat re
  | Eol

type_synonym groups = "(nat \<times> string) list"

fun reps :: "(char \<Rightarrow> bool) \<Rightarrow> nat \<Rightarrow> nat option \<Rightarrow> string \<Rightarrow> (string \<times> string) list" where
  "reps p lo hi [] = (if lo = 0 then [([], [])] else [])"
| "reps p lo hi (c # cs) =
     (if p c \<and> hi \<noteq> Some 0
      then map (\<lambda>(w, r). (c # w, r)) (reps p (lo - 1) (map_option (\<lambda>h. h - 1) hi) cs)
      else [])
     @ (if lo = 0 then [([], c # cs)] else [])"

fun ends :: "re \<Rightarrow> string \<Rightarrow> (string \<times> string \<times> groups) list" where
  "ends (Cls p lo hi) s = map (\<lambda>(w, r). (w, r, [])) (reps p lo hi s)"
| "ends (Cat a b) s =
     concat (map (\<lambda>(w, r, g). map (\<lambda>(w', r', g'). (w @ w', r', g @ g')) (ends b r)) (ends a s))"
| "ends (Alt a b) s = ends a s @ ends b s"
| "ends (Grp k a) s = map (\<lambda>(w, r, g). (w, r, (k, w) # g)) (ends a s)"
| "ends Eol s = (if s = [] \<or> s = [CHR 0x0A] then [([], s, [])] else [])"

text \<open>A match object: \<^verbatim>\<open>group(0)\<close> and the numbered groups.\<close>

definition re_match :: "re \<Rightarrow> string \<Rightarrow> (string \<times> groups) option" where
  "re_match r s = (case ends r s of [] \<Rightarrow> None | (w, _, g) # _ \<Rightarrow> Some (w, g))"

fun re_search :: "re \<Rightarrow> string \<Rightarrow> (string \<times> groups) option" where
  "re_search r [] = re_match r []"
| "re_search r (c # cs) =
     (case re_match r (c # cs) of Some m \<Rightarrow> Some m | None \<Rightarrow> re_search r cs)"

definition group :: "groups \<Rightarrow> nat \<Rightarrow> string" where
  "group g k = (case map_of g k of None \<Rightarrow> [] | Some w \<Rightarrow> w)"

text \<open>Shorthands for the pieces of the patterns.\<close>

definition lit :: "char \<Rightarrow> re" where
  "lit c = Cls (\<lambda>x. x = c) 1 (Some 1)"

definition seq :: "re list \<Rightarrow> re" where
  "seq rs = foldr Cat rs (Cls (\<lambda>_. False) 0 (Some 0))"

abbreviation "ws_star \<equiv> Cls is_space 0 None"
abbreviation "ws_plus \<equiv> Cls is_space 1 None"
abbreviation "digits4 \<equiv> Cls is_digit 4 (Some 4)"
abbreviation "digits12 \<equiv> Cls is_digit 1 (Some 2)"
abbreviation "alphas \<equiv> Cls is_alpha 1 None"
abbreviation "dash_or_slash \<equiv> Cls (\<lambda>c. c = CHR ''-'' \<or> c = CHR ''/'') 1 (Some 1)"
abbreviation "opt_comma \<equiv> Cls (\<lambda>c. c = CHR '','') 0 (Some 1)"

section \<open>Date normalization (utils.py)\<close>

definition MONTHS :: "(string \<times> int) list" where
  "MONTHS =
     [(''jan'', 1), (''january'', 1),
      (''feb'', 2), (''february'', 2),
      (''mar'', 3), (''march'', 3),
      (''apr'', 4), (''april'', 4),
      (''may'', 5),
      (''jun'', 6), (''june'', 6),
      (''jul'', 7), (''july'', 7),
      (''aug'', 8), (''august'', 8),
      (''sep'', 9), (''sept'', 9), (''september'', 9),
      (''oct'', 10), (''october'', 10),
      (''nov'', 11), (''november'', 11),
      (''dec'', 12), (''december'', 12)]"

text \<open>\<^verbatim>\<open>_safe_int(x)\<close> with the default \<^verbatim>\<open>None\<close>: the exception of \<^verbatim>\<open>int\<close> becomes the default.\<close>

definition safe_int :: "string \<Rightarrow> int option" where
  "safe_int x = py_int x"

text \<open>Truthiness of an optional integer, and \<^verbatim>\<open>m or 1\<close>.\<close>

definition truthy_int :: "int option \<Rightarrow> bool" where
  "truthy_int v = (case v of None \<Rightarrow> False | Some n \<Rightarrow> n \<noteq> 0)"

definition or_1 :: "int option \<Rightarrow> int" where
  "or_1 v = (case v of None \<Rightarrow> 1 | Some n \<Rightarrow> if n = 0 then 1 else n)"

definition fmt_date :: "int \<Rightarrow> int option \<Rightarrow> int option \<Rightarrow> string" where
  "fmt_date y m d =
     (let m' = max 1 (min 12 (or_1 m));
          d' = max 1 (min 28 (or_1 d))
      in fmt_0d 4 y @ ''-'' @ fmt_0d 2 m' @ ''-'' @ fmt_0d 2 d')"

definition month_to_num :: "string \<Rightarrow> int option" where
  "month_to_num token = map_of MONTHS (lower (strip token))"

definition iso_re :: re where
  "iso_re = seq [ws_star, Grp 1 digits4, dash_or_slash, Grp 2 digits12, dash_or_slash,
                 Grp 3 digits12, ws_star, Eol]"

definition try_iso :: "string \<Rightarrow> string option" where
  "try_iso raw =
     (case re_match iso_re raw of
        Some (_, g) \<Rightarrow>
          (let y = safe_int (group g 1); mo = safe_int (group g 2); d = safe_int (group g 3)
           in if truthy_int y then Some (fmt_date (the y) mo d) else None)
      | None \<Rightarrow> None)"

definition ym_re :: re where
  "ym_re = seq [ws_star, Grp 1 digits4, dash_or_slash, Grp 2 digits12, ws_star, Eol]"

definition month_year_re :: re where
  "month_year_re = seq [ws_star, Grp 1 alphas, ws_plus, Grp 2 digits4, ws_star, Eol]"

definition year_month_re :: re where
  "year_month_re = seq [ws_star, Grp 1 digits4, ws_plus, Grp 2 alphas, ws_star, Eol]"

definition try_year_month :: "string \<Rightarrow> string option" where
  "try_year_month raw =
     (let r1 =
        (case re_match ym_re raw of
           Some (_, g) \<Rightarrow>
             (let y = safe_int (group g 1); mo = safe_int (group g 2)
              in if truthy_int y then Some (fmt_date (the y) mo (Some 1)) else None)
         | None \<Rightarrow> None);
          r2 =
        (case re_match month_year_re raw of
           Some (_, g) \<Rightarrow>
             (let mo = month_to_num (group g 1); y = safe_int (group g 2)
              in if truthy_int y \<and> truthy_int mo then Some (fmt_date (the y) mo (Some 1)) else None)
         | None \<Rightarrow> None);
          r3 =
        (case re_match year_month_re raw of
           Some (_, g) \<Rightarrow>
             (let y = safe_int (group g 1); mo = month_to_num (group g 2)
              in if truthy_int y \<and> truthy_int mo then Some (fmt_date (the y) mo (Some 1)) else None)
         | None \<Rightarrow> None)
      in case r1 of Some v \<Rightarrow> Some v
         | None \<Rightarrow> (case r2 of Some v \<Rightarrow> Some v | None \<Rightarrow> r3))"

definition mdy_re :: re where
  "mdy_re = seq [ws_star, Grp 1 alphas, ws_plus, Grp 2 digits12, opt_comma, ws_plus,
                 Grp 3 digits4, ws_star, Eol]"

definition dmy_re :: re where
  "dmy_re = seq [ws_star, Grp 1 digits12, ws_plus, Grp 2 alphas, opt_comma, ws_plus,
                 Grp 3 digits4, ws_star, Eol]"

definition try_month_day_year :: "string \<Rightarrow> string option" where
  "try_month_day_year raw =
     (let r1 =
        (case re_match mdy_re raw of
           Some (_, g) \<Rightarrow>
             (let mo = month_to_num (group g 1); d = safe_int (group g 2);
                  y = safe_int (group g 3)
              in if truthy_int y \<and> truthy_int mo \<and> truthy_int d
                 then Some (fmt_date (the y) mo d) else None)
         | None \<Rightarrow> None);
          r2 =
        (case re_match dmy_re raw of
           Some (_, g) \<Rightarrow>
             (let d = safe_int (group g 1); mo = month_to_num (group g 2);
                  y = safe_int (group g 3)
              in if truthy_int y \<and> truthy_int mo \<and> truthy_int d
                 then Some (fmt_date (the y) mo d) else None)
         | None \<Rightarrow> None)
      in case r1 of Some v \<Rightarrow> Some v | None \<Rightarrow> r2)"

definition year_only_re :: re where
  "year_only_re = seq [ws_star, Grp 1 digits4, ws_star, Eol]"

definition try_year_only :: "string \<Rightarrow> string option" where
  "try_year_only raw =
     (case re_match year_only_re raw of
        Some (_, g) \<Rightarrow>
          (let y = safe_int (group g 1)
           in if truthy_int y then Some (fmt_date (the y) (Some 1) (Some 1)) else None)
      | None \<Rightarrow> None)"

text \<open>The pattern \<^verbatim>\<open>(19|20)\d{2}\<close> of the fallback.\<close>

definition sniff_re :: re where
  "sniff_re = Cat (Grp 1 (Alt (Cat (lit CHR ''1'') (lit CHR ''9'')) (Cat (lit CHR ''2'') (lit CHR ''0''))))
                  (Cls is_digit 2 (Some 2))"

text \<open>The loop over the parsers: the first result that is truthy (a non-empty string)
  is returned.\<close>

fun first_parse :: "(string \<Rightarrow> string option) list \<Rightarrow> string \<Rightarrow> string option" where
  "first_parse [] s = None"
| "first_parse (parser # ps) s =
     (case parser s of
        Some val \<Rightarrow> if val \<noteq> [] then Some val else first_parse ps s
      | None \<Rightarrow> first_parse ps s)"

definition normalize_date_string :: "string \<Rightarrow> py_error + string" where
  "normalize_date_string raw =
     (if raw = [] then Inr []
      else
        let s = strip raw in
        case first_parse [try_iso, try_month_day_year, try_year_month, try_year_only] s of
          Some val \<Rightarrow> Inr val
        | None \<Rightarrow>
            (case re_search sniff_re s of
               Some (g0, _) \<Rightarrow>
                 (case py_int g0 of
                    None \<Rightarrow> Inl ValueError
                  | Some y \<Rightarrow> Inr (fmt_date y (Some 1) (Some 1)))
             | None \<Rightarrow> Inr []))"

text \<open>The canonical form \<^verbatim>\<open>\d{4}-\d{2}-\d{2}\<close> with the month in 01..12 and the day in 01..28.\<close>

definition month_of :: "string \<Rightarrow> nat" where
  "month_of v = dec_val (take 2 (drop 5 v))"

definition day_of :: "string \<Rightarrow> nat" where
  "day_of v = dec_val (drop 8 v)"

definition is_canonical :: "string \<Rightarrow> bool" where
  "is_canonical v \<longleftrightarrow>
     length v = 10 \<and> list_all is_digit (take 4 v) \<and> v ! 4 = CHR ''-'' \<and>
     list_all is_digit (take 2 (drop 5 v)) \<and> v ! 7 = CHR ''-'' \<and> list_all is_digit (drop 8 v) \<and>
     1 \<le> month_of v \<and> month_of v \<le> 12 \<and> 1 \<le> day_of v \<and> day_of v \<le> 28"

text \<open>What the successful branches of the normalizer return: a formatted date with a
  year between 1 and 9999.\<close>

definition canon_out :: "string \<Rightarrow> bool" where
  "canon_out v \<longleftrightarrow> (\<exists>y m d. 0 < y \<and> y \<le> 9999 \<and> v = fmt_date y m d)"

section \<open>Deduplication (utils.py)\<close>

text \<open>
  A record handed to \<^verbatim>\<open>dedupe_records\<close> is a dictionary read with \<^verbatim>\<open>r.get(key)\<close>: a field is
  \<open>None\<close> when the key is missing or holds \<^verbatim>\<open>None\<close>. The names are strings and the founders
  a list of strings, as the extraction step produces them.
\<close>

record raw_record =
  raw_company_name :: "string option"
  raw_founding_date :: "string option"
  raw_founders :: "string list option"

record company =
  company_name :: string
  founding_date :: string
  founders :: "string list"

text \<open>\<^verbatim>\<open>r.get(key) or ""\<close> and \<^verbatim>\<open>r.get(key) or []\<close>.\<close>

definition or_empty :: "'a list option \<Rightarrow> 'a list" where
  "or_empty v = (case v of None \<Rightarrow> [] | Some x \<Rightarrow> x)"

text \<open>The loop that appends the founders not seen yet; \<open>seen\<close> holds the case-folded
  names already in the list.\<close>

fun add_founders :: "string set \<Rightarrow> string list \<Rightarrow> string list \<Rightarrow> string list" where
  "add_founders seen acc [] = acc"
| "add_founders seen acc (f # fs) =
     (if casefold f \<notin> seen then add_founders (insert (casefold f) seen) (acc @ [f]) fs
      else add_founders seen acc fs)"

definition merge_founders :: "string list \<Rightarrow> string list \<Rightarrow> string list" where
  "merge_founders existing fs = add_founders (set (map casefold existing)) existing fs"

definition merge_date :: "string \<Rightarrow> string \<Rightarrow> string" where
  "merge_date existing_date date =
     (if existing_date \<noteq> [] \<and> date \<noteq> [] then min existing_date date
      else if date \<noteq> [] \<and> existing_date = [] then date
      else existing_date)"

text \<open>The dictionary \<^verbatim>\<open>by_name\<close> keeps its keys in insertion order; assigning to a key
  that is present keeps its place.\<close>

type_synonym by_name = "(string \<times> company) list"

fun dict_set :: "by_name \<Rightarrow> string \<Rightarrow> company \<Rightarrow> by_name" where
  "dict_set [] k v = [(k, v)]"
| "dict_set ((k', v') # kvs) k v = (if k' = k then (k, v) # kvs else (k', v') # dict_set kvs k v)"

definition dedupe_step :: "by_name \<Rightarrow> raw_record \<Rightarrow> by_name" where
  "dedupe_step by_name r =
     (let name = strip (or_empty (raw_company_name r)) in
      if name = [] then by_name
      else
        let key = casefold name;
            fs = filter (\<lambda>f. f \<noteq> []) (or_empty (raw_founders r));
            date = strip (or_empty (raw_founding_date r))
        in case map_of by_name key of
             None \<Rightarrow>
               dict_set by_name key \<lparr>company_name = name, founding_date = date, founders = fs\<rparr>
           | Some e \<Rightarrow>
               dict_set by_name key
                 (e\<lparr>founders := merge_founders (founders e) fs,
                    founding_date := merge_date (founding_date e) date\<rparr>))"

definition dedupe_records :: "raw_record list \<Rightarrow> company list" where
  "dedupe_records records =
     sort_key (\<lambda>x. casefold (company_name x)) (map snd (foldl dedupe_step [] records))"

text \<open>A record of the output read as an input record again.\<close>

definition as_raw :: "company \<Rightarrow> raw_record" where
  "as_raw x = \<lparr>raw_company_name = Some (company_name x),
               raw_founding_date = Some (founding_date x),
               raw_founders = Some (founders x)\<rparr>"

text \<open>The records of a list that belong to the group of key \<open>k\<close>, and the dates they
  contribute.\<close>

definition record_key :: "raw_record \<Rightarrow> string" where
  "record_key r = casefold (strip (or_empty (raw_company_name r)))"

definition named :: "raw_record \<Rightarrow> bool" where
  "named r \<longleftrightarrow> strip (or_empty (raw_company_name r)) \<noteq> []"

definition record_date :: "raw_record \<Rightarrow> string" where
  "record_date r = strip (or_empty (raw_founding_date r))"

definition group_of :: "string \<Rightarrow> raw_record list \<Rightarrow> raw_record list" where
  "group_of k rs = filter (\<lambda>r. named r \<and> record_key r = k) rs"

definition group_dates :: "string \<Rightarrow> raw_record list \<Rightarrow> string list" where
  "group_dates k rs = filter (\<lambda>d. d \<noteq> []) (map record_date (group_of k rs))"

definition earliest :: "string list \<Rightarrow> string" where
  "earliest ds = (if ds = [] then [] else Min (set ds))"

text \<open>An entry of the dictionary as the loop leaves it: the key is the case-folded name,
  name and date are trimmed, the name is not empty and no founder is empty.\<close>

definition clean :: "company \<Rightarrow> bool" where
  "clean c \<longleftrightarrow> strip (company_name c) = company_name c \<and> company_name c \<noteq> [] \<and>
     strip (founding_date c) = founding_date c \<and> [] \<notin> set (founders c)"

definition entry_ok :: "string \<times> company \<Rightarrow> bool" where
  "entry_ok e \<longleftrightarrow> fst e = casefold (company_name (snd e)) \<and> clean (snd e)"

text \<open>The date stored under a key, and the date a group folds to.\<close>

definition date_at :: "by_name \<Rightarrow> string \<Rightarrow> string option" where
  "date_at bn k = map_option founding_date (map_of bn k)"

fun fold_dates :: "string option \<Rightarrow> string list \<Rightarrow> string option" where
  "fold_dates None [] = None"
| "fold_dates None (x # xs) = Some (foldl merge_date x xs)"
| "fold_dates (Some d) xs = Some (foldl merge_date d xs)"

text \<open>The two records of the merge example of the specification, dates normalized, and
  a list with an unnamed record.\<close>

definition acme_records :: "raw_record list" where
  "acme_records =
     [\<lparr>raw_company_name = Some ''Acme Inc.'', raw_founding_date = Some ''1990-01-01'',
       raw_founders = Some [''Jane'']\<rparr>,
      \<lparr>raw_company_name = Some ''acme inc.'', raw_founding_date = Some ''1990-03-05'',
       raw_founders = Some [''jane'', ''Bob'']\<rparr>]"

definition zeta_records :: "raw_record list" where
  "zeta_records =
     [\<lparr>raw_company_name = Some ''Zeta'', raw_founding_date = None, raw_founders = None\<rparr>,
      \<lparr>raw_company_name = Some ''  '', raw_founding_date = Some ''2001-01-01'',
       raw_founders = Some [''Ann'']\<rparr>,
      \<lparr>raw_company_name = Some '' acme '', raw_founding_date = None,
       raw_founders = Some [''Bob'']\<rparr>]"

section \<open>Paragraph segmentation (utils.py)\<close>

text \<open>The text after the first match of a pattern at the start of a string
  (\<^verbatim>\<open>m.end()\<close> as the rest of the string).\<close>

definition first_end :: "(string \<times> string \<times> groups) list \<Rightarrow> string option" where
  "first_end ms = (case ms of [] \<Rightarrow> None | (w, rest, g) # _ \<Rightarrow> Some rest)"

definition match_end :: "re \<Rightarrow> string \<Rightarrow> string option" where
  "match_end r s = first_end (ends r s)"

text \<open>
  \<^verbatim>\<open>re.split(pattern, string)\<close> for a pattern without groups: the string is scanned from
  the left, \<open>acc\<close> holds the current piece reversed, and a match closes the piece and moves
  the scan behind the match. The pattern of the program matches at least two characters;
  a match of no character is passed over here.
\<close>

fun re_split_from :: "re \<Rightarrow> string \<Rightarrow> string \<Rightarrow> string list" where
  "re_split_from r acc [] = [rev acc]"
| "re_split_from r acc (c # cs) =
     (case match_end r (c # cs) of
        None \<Rightarrow> re_split_from r (c # acc) cs
      | Some rest \<Rightarrow>
          if length rest < length (c # cs) then rev acc # re_split_from r [] rest
          else re_split_from r (c # acc) cs)"

definition re_split :: "re \<Rightarrow> string \<Rightarrow> string list" where
  "re_split r s = re_split_from r [] s"

text \<open>The pattern \<^verbatim>\<open>\n\s*\n+\<close>.\<close>

definition para_re :: re where
  "para_re = Cat (Cls is_newline 1 (Some 1)) (Cat (Cls is_space 0 None) (Cls is_newline 1 None))"

definition split_paragraphs :: "string \<Rightarrow> string list" where
  "split_paragraphs text =
     (let blocks = re_split para_re (strip text)
      in map strip (filter (\<lambda>b. strip b \<noteq> []) blocks))"

subsection \<open>The segmenter as the specification words it\<close>

text \<open>
  The lines of the text are its pieces between line feeds; a line is blank when it holds
  only whitespace; the blank lines cut the list of lines into runs of consecutive
  non-blank lines; each run, its lines joined by line feeds again, is trimmed, and the
  empty results are dropped.
\<close>

definition seg_lines :: "string \<Rightarrow> string list" where
  "seg_lines text = split_on CHR 0x0A text"

definition blank :: "string \<Rightarrow> bool" where
  "blank l = list_all is_space l"

fun runs :: "string list \<Rightarrow> string list list" where
  "runs [] = [[]]"
| "runs (l # ls) =
     (if blank l then [] # runs ls
      else (case runs ls of [] \<Rightarrow> [[l]] | p # ps \<Rightarrow> (l # p) # ps))"

fun join_lines :: "string list \<Rightarrow> string" where
  "join_lines [] = []"
| "join_lines [l] = l"
| "join_lines (l # m # ls) = l @ CHR 0x0A # join_lines (m # ls)"

definition trimmed :: "string list list \<Rightarrow> string list" where
  "trimmed ps = filter (\<lambda>b. b \<noteq> []) (map (\<lambda>p. strip (join_lines p)) ps)"

definition segment_spec :: "string \<Rightarrow> string list" where
  "segment_spec text = trimmed (runs (seg_lines text))"

text \<open>Where the pattern \<^verbatim>\<open>\s*\n+\<close> ends when it matches at the start of a string, and
  the lines left when the blank lines at the head of a list, but not its last line, are
  passed over.\<close>

fun after_blank :: "string \<Rightarrow> string option" where
  "after_blank [] = None"
| "after_blank (c # cs) =
     (if is_space c
      then (case after_blank cs of
              Some r \<Rightarrow> Some r
            | None \<Rightarrow> if is_newline c then Some (dropWhile is_newline cs) else None)
      else None)"

fun skip_blank_lines :: "string list \<Rightarrow> string list" where
  "skip_blank_lines [] = []"
| "skip_blank_lines [m] = [m]"
| "skip_blank_lines (m # m' # ms) = (if blank m then skip_blank_lines (m' # ms) else m # m' # ms)"

text \<open>The two list operations of the matcher, named: the matches of a sequence from
  the matches of its first part, and a character put in front of every match.\<close>

definition then_match ::
  "(string \<times> string \<times> groups) list \<Rightarrow> (string \<Rightarrow> (string \<times> string \<times> groups) list)
     \<Rightarrow> (string \<times> string \<times> groups) list" where
  "then_match A B =
     concat (map (\<lambda>(w, r, g). map (\<lambda>(w', r', g'). (w @ w', r', g @ g')) (B r)) A)"

definition shift :: "char \<Rightarrow> (string \<times> string \<times> groups) list \<Rightarrow> (string \<times> string \<times> groups) list" where
  "shift c A = map (\<lambda>(w, r, g). (c # w, r, g)) A"

abbreviation "nl_plus \<equiv> Cls is_newline 1 None"

text \<open>The blocks of a list of runs when the text \<open>blk\<close> already stands before the first
  run.\<close>

definition trimmed_from :: "string \<Rightarrow> string list list \<Rightarrow> string list" where
  "trimmed_from blk ps =
     (case ps of [] \<Rightarrow> []
      | p # ps' \<Rightarrow> filter (\<lambda>b. b \<noteq> []) [strip (blk @ join_lines p)] @ trimmed ps')"

section \<open>Cleaning one extracted item (agent\_workflow.py)\<close>

text \<open>
  The items come from \<^verbatim>\<open>json.loads\<close> on the answer of the model, so a field holds any JSON
  value; \<^verbatim>\<open>d.get(key)\<close> of a missing key is \<^verbatim>\<open>None\<close>, which is \<open>JNull\<close>. Numbers are
  integers here.
\<close>

datatype json =
    JNull
  | JBool bool
  | JNum int
  | JStr string
  | JList "json list"
  | JDict "(string \<times> json) list"

fun truthy :: "json \<Rightarrow> bool" where
  "truthy JNull = False"
| "truthy (JBool b) = b"
| "truthy (JNum n) = (n \<noteq> 0)"
| "truthy (JStr s) = (s \<noteq> [])"
| "truthy (JList xs) = (xs \<noteq> [])"
| "truthy (JDict kvs) = (kvs \<noteq> [])"

record raw_item =
  item_company_name :: json
  item_founding_date :: json
  item_founders :: json

record clean_item =
  clean_company_name :: string
  clean_founding_date :: string
  clean_founders :: "json list"

text \<open>\<^verbatim>\<open>(d.get(key) or "").strip()\<close>: a value that is truthy and not a string has no
  \<^verbatim>\<open>strip\<close>.\<close>

definition get_stripped :: "json \<Rightarrow> py_error + string" where
  "get_stripped v =
     (if \<not> truthy v then Inr (strip [])
      else case v of JStr s \<Rightarrow> Inr (strip s) | _ \<Rightarrow> Inl AttributeError)"

definition startswith :: "string \<Rightarrow> char \<Rightarrow> bool" where
  "startswith s c = (case s of [] \<Rightarrow> False | x # _ \<Rightarrow> x = c)"

definition endswith :: "string \<Rightarrow> char \<Rightarrow> bool" where
  "endswith s c = (case rev s of [] \<Rightarrow> False | x # _ \<Rightarrow> x = c)"

text \<open>\<^verbatim>\<open>text.replace("'", '"')\<close>.\<close>

definition replace_quotes :: "string \<Rightarrow> string" where
  "replace_quotes s = map (\<lambda>c. if c = CHR 0x27 then CHR 0x22 else c) s"

text \<open>\<^verbatim>\<open>[x.strip() for x in text.split(",") if x.strip()]\<close>.\<close>

definition split_commas :: "string \<Rightarrow> string list" where
  "split_commas text = map strip (filter (\<lambda>x. strip x \<noteq> []) (split_on CHR '','' text))"

text \<open>
  The founders of an item. \<^verbatim>\<open>json.loads\<close> belongs to the Python library, not to the
  program: it is the parameter \<open>json_loads\<close>, \<open>None\<close> where it raises. The last line of the
  source iterates over the value: a list gives its elements, a dictionary its keys, and a
  number or \<^verbatim>\<open>True\<close> cannot be iterated.
\<close>

definition coerce_founders :: "(string \<Rightarrow> json option) \<Rightarrow> json \<Rightarrow> py_error + json list" where
  "coerce_founders json_loads v =
     (let founders = (if truthy v then v else JList []);
          founders =
            (case founders of
               JStr s \<Rightarrow>
                 (let text = strip s in
                  if startswith text CHR ''['' \<and> endswith text CHR '']''
                  then (case json_loads (replace_quotes text) of
                          Some (JList parsed) \<Rightarrow> JList parsed
                        | Some _ \<Rightarrow> JList [JStr text]
                        | None \<Rightarrow> JList [JStr text])
                  else JList (map JStr (split_commas text)))
             | other \<Rightarrow> other)
      in case founders of
           JList xs \<Rightarrow> Inr (filter truthy xs)
         | JDict kvs \<Rightarrow> Inr (filter truthy (map (\<lambda>kv. JStr (fst kv)) kvs))
         | _ \<Rightarrow> Inl TypeError)"

definition coerce_record :: "(string \<Rightarrow> json option) \<Rightarrow> raw_item \<Rightarrow> py_error + clean_item" where
  "coerce_record json_loads d =
     (case get_stripped (item_company_name d) of
        Inl e \<Rightarrow> Inl e
      | Inr company \<Rightarrow>
     (case get_stripped (item_founding_date d) of
        Inl e \<Rightarrow> Inl e
      | Inr raw_date \<Rightarrow>
     (case coerce_founders json_loads (item_founders d) of
        Inl e \<Rightarrow> Inl e
      | Inr fs \<Rightarrow>
     (case normalize_date_string raw_date of
        Inl e \<Rightarrow> Inl e
      | Inr norm_date \<Rightarrow>
          Inr \<lparr>clean_company_name = company, clean_founding_date = norm_date,
               clean_founders = fs\<rparr>))))"

subsection \<open>A reader for arrays of plain strings\<close>

text \<open>
  \<^verbatim>\<open>json.loads\<close> on the texts that are an array of strings without escapes: on such a text
  this is the list of the strings. It gives \<open>None\<close> on every other text, which is what
  \<^verbatim>\<open>json.loads\<close> does where the text is not JSON at all. It stands for \<^verbatim>\<open>json.loads\<close> in the
  examples only.
\<close>

definition json_ws :: "string \<Rightarrow> string" where
  "json_ws s = dropWhile (\<lambda>c. c \<in> set [CHR 0x20, CHR 0x09, CHR 0x0A, CHR 0x0D]) s"

definition take_string :: "string \<Rightarrow> (string \<times> string) option" where
  "take_string s =
     (case s of
        [] \<Rightarrow> None
      | q # cs \<Rightarrow>
          if q \<noteq> CHR 0x22 then None
          else
            let w = takeWhile (\<lambda>c. c \<noteq> CHR 0x22) cs;
                r = dropWhile (\<lambda>c. c \<noteq> CHR 0x22) cs
            in if r = [] \<or> list_ex (\<lambda>c. c = CHR 0x5C \<or> (of_char c :: nat) < 32) w then None
               else Some (w, tl r))"

fun string_items :: "nat \<Rightarrow> string \<Rightarrow> string list option" where
  "string_items 0 s = None"
| "string_items (Suc n) s =
     (case take_string (json_ws s) of
        None \<Rightarrow> None
      | Some (w, r) \<Rightarrow>
          (case json_ws r of
             [] \<Rightarrow> None
           | c # r' \<Rightarrow>
               if c = CHR '']'' then (if json_ws r' = [] then Some [w] else None)
               else if c = CHR '','' then map_option (\<lambda>ws. w # ws) (string_items n r')
               else None))"

definition json_loads_strings :: "string \<Rightarrow> json option" where
  "json_loads_strings s =
     (case json_ws s of
        [] \<Rightarrow> None
      | b # r \<Rightarrow>
          if b \<noteq> CHR ''['' then None
          else (case json_ws r of
                  [] \<Rightarrow> None
                | c # r' \<Rightarrow>
                    if c = CHR '']'' then (if json_ws r' = [] then Some (JList []) else None)
                    else map_option (\<lambda>ws. JList (map JStr ws)) (string_items (length r) r)))"

section \<open>The date forms as the specification words them\<close>


















section \<open>Properties of the string functions\<close>

lemma digit_not_space: "is_digit c \<Longrightarrow> \<not> is_space c"
  by (auto simp: is_digit_def is_space_def)

lemma digit_not_sep:
  "is_digit c \<Longrightarrow> c \<noteq> CHR ''-'' \<and> c \<noteq> CHR ''/'' \<and> c \<noteq> CHR ''_'' \<and> c \<noteq> CHR ''+''"
  by (auto simp: is_digit_def)

lemma lt10_cases:
  "k < 10 \<Longrightarrow> k = 0 \<or> k = 1 \<or> k = 2 \<or> k = 3 \<or> k = 4 \<or> k = 5 \<or> k = 6 \<or> k = 7 \<or> k = 8 \<or> k = (9::nat)"
  by arith

lemma digit_char_props: "k < 10 \<Longrightarrow> is_digit (digit_char k) \<and> digit_val (digit_char k) = k"
  by (drule lt10_cases) (auto simp: is_digit_def digit_char_def digit_val_def)

lemma digit_val_lt: "is_digit c \<Longrightarrow> digit_val c < 10"
  by (auto simp: is_digit_def digit_val_def)

lemma last_dropWhile: "dropWhile P xs \<noteq> [] \<Longrightarrow> last (dropWhile P xs) = last xs"
  by (induction xs) auto

lemma strip_inner:
  "dropWhile is_space (rev (dropWhile is_space (rev (dropWhile is_space s))))
     = rev (dropWhile is_space (rev (dropWhile is_space s)))"
proof -
  let ?u = "dropWhile is_space s"
  let ?t = "dropWhile is_space (rev ?u)"
  show ?thesis
  proof (cases "?t = []")
    case True show ?thesis unfolding True by simp
  next
    case False
    have u: "?u \<noteq> []"
    proof
      assume e: "?u = []"
      have "?t = []" unfolding e by simp
      with False show False ..
    qed
    have "last ?t = last (rev ?u)" using False by (rule last_dropWhile)
    also have "\<dots> = hd ?u" using u by (simp add: last_rev)
    finally have "\<not> is_space (last ?t)" using hd_dropWhile [OF u] by simp
    then have "\<not> is_space (hd (rev ?t))" using False by (simp add: hd_rev)
    then show ?thesis by (simp add: dropWhile_eq_self_iff)
  qed
qed

lemma strip_idem: "strip (strip s) = strip s"
  unfolding strip_def by (simp add: strip_inner)

lemma strip_id: "s \<noteq> [] \<Longrightarrow> \<not> is_space (hd s) \<Longrightarrow> \<not> is_space (last s) \<Longrightarrow> strip s = s"
proof -
  assume a: "s \<noteq> []" "\<not> is_space (hd s)" "\<not> is_space (last s)"
  have 1: "dropWhile is_space s = s" using a by (simp add: dropWhile_eq_self_iff)
  have 2: "dropWhile is_space (rev s) = rev s" using a by (simp add: dropWhile_eq_self_iff hd_rev)
  show ?thesis unfolding strip_def by (simp add: 1 2)
qed

lemma strip_Nil: "strip [] = []"
  by (simp add: strip_def)

lemma split_on_none: "d \<notin> set s \<Longrightarrow> split_on d s = [s]"
  by (induction s) auto

subsection \<open>Decimal numerals\<close>

lemma dec_val_snoc: "dec_val (s @ [c]) = 10 * dec_val s + digit_val c"
  by (simp add: dec_val_def)

lemma nat_digits_digits: "list_all is_digit (nat_digits n)"
proof (induction n rule: nat_digits.induct)
  case (1 n)
  show ?case
  proof (cases "n < 10")
    case True then show ?thesis by (subst nat_digits.simps) (simp add: digit_char_props)
  next
    case False
    then show ?thesis using 1 by (subst nat_digits.simps) (simp add: digit_char_props)
  qed
qed

lemma nat_digits_val: "dec_val (nat_digits n) = n"
proof (induction n rule: nat_digits.induct)
  case (1 n)
  show ?case
  proof (cases "n < 10")
    case True then show ?thesis by (subst nat_digits.simps) (simp add: dec_val_def digit_char_props)
  next
    case False
    then show ?thesis using 1 by (subst nat_digits.simps) (simp add: dec_val_snoc digit_char_props)
  qed
qed

lemma nat_digits_len: "n < 10 ^ k \<Longrightarrow> 0 < k \<Longrightarrow> length (nat_digits n) \<le> k"
proof (induction n arbitrary: k rule: nat_digits.induct)
  case (1 n)
  show ?case
  proof (cases "n < 10")
    case True then show ?thesis using 1(3) by (subst nat_digits.simps) simp
  next
    case False
    obtain j where k: "k = Suc j" using 1(3) by (cases k) auto
    have j: "0 < j" using False 1(2) k by (cases j) auto
    have "n < 10 * 10 ^ j" using 1(2) k by simp
    then have "n div 10 < 10 ^ j" by (simp add: less_mult_imp_div_less mult.commute)
    then have "length (nat_digits (n div 10)) \<le> j" using 1(1) [OF False _ j] by simp
    then show ?thesis using False k by (subst nat_digits.simps) simp
  qed
qed

lemma dec_val_zeros: "dec_val (replicate k CHR ''0'' @ s) = dec_val s"
  by (induction k) (simp_all add: dec_val_def digit_val_def)

lemma zfill_props:
  assumes "list_all is_digit s" "length s \<le> w"
  shows "length (zfill w s) = w \<and> list_all is_digit (zfill w s) \<and> dec_val (zfill w s) = dec_val s"
proof -
  have z: "is_digit CHR ''0''" by (simp add: is_digit_def)
  have "list_all is_digit (replicate (w - length s) CHR ''0'')" using z by (simp add: list_all_iff)
  then show ?thesis using assms unfolding zfill_def by (simp add: dec_val_zeros)
qed

lemma fmt_0d_props:
  assumes "0 \<le> n" "n < 10 ^ w" "0 < w"
  shows "length (fmt_0d w n) = w \<and> list_all is_digit (fmt_0d w n) \<and> int (dec_val (fmt_0d w n)) = n"
proof -
  have "int (nat n) < int (10 ^ w)" using assms by simp
  then have "nat n < 10 ^ w" by (simp only: of_nat_less_iff)
  then have "length (nat_digits (nat n)) \<le> w" using assms(3) by (rule nat_digits_len)
  then show ?thesis using assms(1) zfill_props [OF nat_digits_digits, of "nat n" w]
    by (simp add: fmt_0d_def nat_digits_val)
qed

lemma dec_val_bound: "list_all is_digit w \<Longrightarrow> dec_val w < 10 ^ length w"
proof (induction w rule: rev_induct)
  case Nil then show ?case by (simp add: dec_val_def)
next
  case (snoc c w)
  then have "dec_val w < 10 ^ length w" "digit_val c < 10" by (auto simp: digit_val_lt)
  then have "10 * dec_val w + digit_val c < 10 * 10 ^ length w" by arith
  then show ?case by (simp add: dec_val_snoc)
qed

lemma py_int_digits:
  assumes "list_all is_digit w" "w \<noteq> []"
  shows "py_int w = Some (int (dec_val w))"
proof -
  have h: "\<not> is_space (hd w)" "\<not> is_space (last w)"
    using assms by (auto simp: list_all_iff digit_not_space)
  have s: "strip w = w" using assms(2) h by (rule strip_id)
  have u: "CHR ''_'' \<notin> set w" using assms(1) digit_not_sep by (auto simp: list_all_iff)
  have i: "int_digits w = Some (dec_val w)"
    using assms by (simp add: int_digits_def split_on_none [OF u])
  obtain c cs where w: "w = c # cs" using assms(2) by (cases w) auto
  have "is_digit c" using assms(1) w by simp
  then have "c \<noteq> CHR ''-''" "c \<noteq> CHR ''+''" using digit_not_sep by auto
  then show ?thesis using s i w by (simp add: py_int_def)
qed

section \<open>Properties of the matcher\<close>

lemma in_reps:
  "(w, r) \<in> set (reps p lo hi s) \<longleftrightarrow>
     s = w @ r \<and> list_all p w \<and> lo \<le> length w \<and> (case hi of None \<Rightarrow> True | Some h \<Rightarrow> length w \<le> h)"
proof (induction s arbitrary: lo hi w)
  case Nil
  then show ?case by (auto split: option.splits)
next
  case (Cons c cs)
  show ?case
  proof (cases w)
    case Nil
    then show ?thesis by (auto split: option.splits)
  next
    case (Cons x xs)
    then show ?thesis using Cons.IH [of xs "lo - 1" "map_option (\<lambda>h. h - 1) hi"]
      by (cases hi) auto
  qed
qed

lemma in_ends_Cls:
  "(w, r, g) \<in> set (ends (Cls p lo hi) s) \<longleftrightarrow> g = [] \<and> (w, r) \<in> set (reps p lo hi s)"
  by auto

lemma in_ends_Cat:
  "(w, r, g) \<in> set (ends (Cat a b) s) \<longleftrightarrow>
     (\<exists>w1 r1 g1 w2 g2. (w1, r1, g1) \<in> set (ends a s) \<and> (w2, r, g2) \<in> set (ends b r1)
        \<and> w = w1 @ w2 \<and> g = g1 @ g2)"
  by (auto; force)

lemma in_ends_Grp:
  "(w, r, g) \<in> set (ends (Grp k a) s) \<longleftrightarrow> (\<exists>g'. (w, r, g') \<in> set (ends a s) \<and> g = (k, w) # g')"
  by force

lemma in_ends_Alt:
  "(w, r, g) \<in> set (ends (Alt a b) s) \<longleftrightarrow> (w, r, g) \<in> set (ends a s) \<or> (w, r, g) \<in> set (ends b s)"
  by auto

lemma re_match_in: "re_match r s = Some (w, g) \<Longrightarrow> \<exists>rest. (w, rest, g) \<in> set (ends r s)"
  by (auto simp: re_match_def split: list.splits)

lemma re_search_match: "re_search r s = Some m \<Longrightarrow> \<exists>t. re_match r t = Some m"
  by (induction s) (auto split: option.splits)

lemmas in_ends = in_ends_Cat in_ends_Grp in_ends_Cls in_ends_Alt in_reps

lemma len4: "length xs = 4 \<Longrightarrow> \<exists>a b c d. xs = [a, b, c, d]"
  by (auto simp: numeral_eq_Suc length_Suc_conv)

lemma len2: "length xs = 2 \<Longrightarrow> \<exists>a b. xs = [a, b]"
  by (auto simp: numeral_eq_Suc length_Suc_conv)

section \<open>Properties of the date normalizer\<close>

subsection \<open>The year group of every pattern is four digits\<close>

lemma iso_year:
  assumes "re_match iso_re raw = Some (w, g)"
  shows "length (group g 1) = 4 \<and> list_all is_digit (group g 1)"
proof -
  from re_match_in [OF assms] obtain rest where "(w, rest, g) \<in> set (ends iso_re raw)" ..
  then show ?thesis
    unfolding iso_re_def seq_def
    by (auto simp: in_ends group_def simp del: ends.simps)
qed

lemma ym_year:
  assumes "re_match ym_re raw = Some (w, g)"
  shows "length (group g 1) = 4 \<and> list_all is_digit (group g 1)"
proof -
  from re_match_in [OF assms] obtain rest where "(w, rest, g) \<in> set (ends ym_re raw)" ..
  then show ?thesis
    unfolding ym_re_def seq_def
    by (auto simp: in_ends group_def simp del: ends.simps)
qed

lemma month_year_year:
  assumes "re_match month_year_re raw = Some (w, g)"
  shows "length (group g 2) = 4 \<and> list_all is_digit (group g 2)"
proof -
  from re_match_in [OF assms] obtain rest where "(w, rest, g) \<in> set (ends month_year_re raw)" ..
  then show ?thesis
    unfolding month_year_re_def seq_def
    by (auto simp: in_ends group_def simp del: ends.simps)
qed

lemma year_month_year:
  assumes "re_match year_month_re raw = Some (w, g)"
  shows "length (group g 1) = 4 \<and> list_all is_digit (group g 1)"
proof -
  from re_match_in [OF assms] obtain rest where "(w, rest, g) \<in> set (ends year_month_re raw)" ..
  then show ?thesis
    unfolding year_month_re_def seq_def
    by (auto simp: in_ends group_def simp del: ends.simps)
qed

lemma mdy_year:
  assumes "re_match mdy_re raw = Some (w, g)"
  shows "length (group g 3) = 4 \<and> list_all is_digit (group g 3)"
proof -
  from re_match_in [OF assms] obtain rest where "(w, rest, g) \<in> set (ends mdy_re raw)" ..
  then show ?thesis
    unfolding mdy_re_def seq_def
    by (auto simp: in_ends group_def simp del: ends.simps)
qed

lemma dmy_year:
  assumes "re_match dmy_re raw = Some (w, g)"
  shows "length (group g 3) = 4 \<and> list_all is_digit (group g 3)"
proof -
  from re_match_in [OF assms] obtain rest where "(w, rest, g) \<in> set (ends dmy_re raw)" ..
  then show ?thesis
    unfolding dmy_re_def seq_def
    by (auto simp: in_ends group_def simp del: ends.simps)
qed

lemma year_only_year:
  assumes "re_match year_only_re raw = Some (w, g)"
  shows "length (group g 1) = 4 \<and> list_all is_digit (group g 1)"
proof -
  from re_match_in [OF assms] obtain rest where "(w, rest, g) \<in> set (ends year_only_re raw)" ..
  then show ?thesis
    unfolding year_only_re_def seq_def
    by (auto simp: in_ends group_def simp del: ends.simps)
qed

subsection \<open>The shape of a formatted date\<close>

lemma fmt_date_shape:
  assumes "0 \<le> y" "y \<le> 9999"
  shows "\<exists>Y M D. fmt_date y m d = Y @ ''-'' @ M @ ''-'' @ D
           \<and> length Y = 4 \<and> list_all is_digit Y \<and> int (dec_val Y) = y
           \<and> length M = 2 \<and> list_all is_digit M \<and> int (dec_val M) = max 1 (min 12 (or_1 m))
           \<and> length D = 2 \<and> list_all is_digit D \<and> int (dec_val D) = max 1 (min 28 (or_1 d))"
proof -
  define mm where "mm = max 1 (min 12 (or_1 m))"
  define dd where "dd = max 1 (min 28 (or_1 d))"
  have y: "y < 10 ^ 4" using assms by simp
  have m: "0 \<le> mm" "mm < 10 ^ 2" by (auto simp: mm_def)
  have d: "0 \<le> dd" "dd < 10 ^ 2" by (auto simp: dd_def)
  have f: "fmt_date y m d = fmt_0d 4 y @ ''-'' @ fmt_0d 2 mm @ ''-'' @ fmt_0d 2 dd"
    by (simp add: fmt_date_def Let_def mm_def dd_def)
  have py: "length (fmt_0d 4 y) = 4 \<and> list_all is_digit (fmt_0d 4 y) \<and> int (dec_val (fmt_0d 4 y)) = y"
    by (rule fmt_0d_props [OF assms(1) y]) simp
  have pm: "length (fmt_0d 2 mm) = 2 \<and> list_all is_digit (fmt_0d 2 mm) \<and> int (dec_val (fmt_0d 2 mm)) = mm"
    by (rule fmt_0d_props [OF m]) simp
  have pd: "length (fmt_0d 2 dd) = 2 \<and> list_all is_digit (fmt_0d 2 dd) \<and> int (dec_val (fmt_0d 2 dd)) = dd"
    by (rule fmt_0d_props [OF d]) simp
  show ?thesis
    apply (rule exI [of _ "fmt_0d 4 y"])
    apply (rule exI [of _ "fmt_0d 2 mm"])
    apply (rule exI [of _ "fmt_0d 2 dd"])
    unfolding mm_def [symmetric] dd_def [symmetric]
    using f py pm pd by (simp only: simp_thms)
qed

lemma iso_match_canonical:
  assumes "length Y = 4" "list_all is_digit Y" "length M = 2" "list_all is_digit M"
    "length D = 2" "list_all is_digit D"
  shows "re_match iso_re (Y @ ''-'' @ M @ ''-'' @ D)
           = Some (Y @ ''-'' @ M @ ''-'' @ D, [(1, Y), (2, M), (3, D)])"
proof -
  obtain a b c e where Y: "Y = [a, b, c, e]" using len4 [OF assms(1)] by blast
  obtain f g where M: "M = [f, g]" using len2 [OF assms(3)] by blast
  obtain h i where D: "D = [h, i]" using len2 [OF assms(5)] by blast
  have dg: "is_digit a" "is_digit b" "is_digit c" "is_digit e" "is_digit f" "is_digit g"
    "is_digit h" "is_digit i" using assms Y M D by auto
  note ns = dg [THEN digit_not_space] dg [THEN digit_not_sep]
  have nd: "\<not> is_digit CHR ''-''" "\<not> is_space CHR ''-''" by (auto simp: is_digit_def is_space_def)
  show ?thesis unfolding Y M D iso_re_def seq_def re_match_def
    using dg ns nd by simp
qed

lemma in_lit: "(w, r, g) \<in> set (ends (lit c) s) \<longleftrightarrow> w = [c] \<and> s = c # r \<and> g = []"
  unfolding lit_def in_ends_Cls in_reps by (cases w; cases "tl w") auto

lemma year_ok:
  assumes "length w = 4 \<and> list_all is_digit w" "truthy_int (safe_int w)"
  shows "0 < the (safe_int w) \<and> the (safe_int w) \<le> 9999"
proof -
  have ne: "w \<noteq> []" using assms(1) by auto
  have p: "safe_int w = Some (int (dec_val w))"
    unfolding safe_int_def using assms(1) ne by (simp add: py_int_digits)
  have "dec_val w < 10 ^ 4" using dec_val_bound [of w] assms(1) by simp
  then show ?thesis using p assms(2) by (simp add: truthy_int_def)
qed

lemma canon_outI: "0 < y \<and> y \<le> 9999 \<Longrightarrow> canon_out (fmt_date y m d)"
  unfolding canon_out_def by blast

subsection \<open>Every parser returns a formatted date\<close>

lemma try_iso_out: "try_iso s = Some v \<Longrightarrow> canon_out v"
  unfolding try_iso_def Let_def
  by (auto split: option.splits if_splits intro!: canon_outI year_ok dest: iso_year)

lemma try_year_only_out: "try_year_only s = Some v \<Longrightarrow> canon_out v"
  unfolding try_year_only_def Let_def
  by (auto split: option.splits if_splits intro!: canon_outI year_ok dest: year_only_year)

lemma try_year_month_out: "try_year_month s = Some v \<Longrightarrow> canon_out v"
  unfolding try_year_month_def Let_def
  by (auto split: option.splits if_splits intro!: canon_outI year_ok
        dest: ym_year month_year_year year_month_year)

lemma try_month_day_year_out: "try_month_day_year s = Some v \<Longrightarrow> canon_out v"
  unfolding try_month_day_year_def Let_def
  by (auto split: option.splits if_splits intro!: canon_outI year_ok dest: mdy_year dmy_year)

lemma first_parse_Some:
  "first_parse ps s = Some v \<Longrightarrow> v \<noteq> [] \<and> (\<exists>p\<in>set ps. p s = Some v)"
  by (induction ps) (auto split: option.splits if_splits)

subsection \<open>A formatted date is canonical and parses to itself\<close>

lemma canon_out_props:
  assumes "canon_out v"
  shows "v \<noteq> [] \<and> strip v = v \<and> try_iso v = Some v \<and> is_canonical v"
proof -
  from assms obtain y m d where y: "0 < y" "y \<le> 9999" and v: "v = fmt_date y m d"
    unfolding canon_out_def by blast
  define mm where "mm = max 1 (min 12 (or_1 m))"
  define dd where "dd = max 1 (min 28 (or_1 d))"
  have y0: "0 \<le> y" using y by simp
  from fmt_date_shape [OF y0 y(2), of m d] obtain Y M D where
    f: "fmt_date y m d = Y @ ''-'' @ M @ ''-'' @ D"
    and Y: "length Y = 4" "list_all is_digit Y" "int (dec_val Y) = y"
    and M: "length M = 2" "list_all is_digit M" "int (dec_val M) = mm"
    and D: "length D = 2" "list_all is_digit D" "int (dec_val D) = dd"
    unfolding mm_def dd_def by blast
  have vv: "v = Y @ ''-'' @ M @ ''-'' @ D" using v f by simp
  have ne: "v \<noteq> []" using vv by simp
  have Yne: "Y \<noteq> []" "M \<noteq> []" "D \<noteq> []" using Y(1) M(1) D(1) by auto
  have hd: "hd v = hd Y" using vv Yne by simp
  have la: "last v = last D" using vv Yne by simp
  have "is_digit (hd Y)" "is_digit (last D)" using Y(2) D(2) Yne by (auto simp: list_all_iff)
  then have sp: "\<not> is_space (hd v)" "\<not> is_space (last v)" using hd la digit_not_space by auto
  have st: "strip v = v" using ne sp by (rule strip_id)
  have mb: "1 \<le> mm" "mm \<le> 12" "1 \<le> dd" "dd \<le> 28" by (auto simp: mm_def dd_def)
  have can: "is_canonical v"
    unfolding is_canonical_def month_of_def day_of_def vv
    using Y M D mb by (simp add: nth_append)
  have gy: "safe_int Y = Some y"
    unfolding safe_int_def using py_int_digits [OF Y(2) Yne(1)] Y(3) by simp
  have gm: "safe_int M = Some mm"
    unfolding safe_int_def using py_int_digits [OF M(2) Yne(2)] M(3) by simp
  have gd: "safe_int D = Some dd"
    unfolding safe_int_def using py_int_digits [OF D(2) Yne(3)] D(3) by simp
  have re: "fmt_date y (Some mm) (Some dd) = fmt_date y m d"
    using mb unfolding fmt_date_def Let_def mm_def [symmetric] dd_def [symmetric]
    by (simp add: or_1_def)
  have "try_iso v = Some (fmt_date y (Some mm) (Some dd))"
    unfolding try_iso_def vv iso_match_canonical [OF Y(1,2) M(1,2) D(1,2)]
    using y gy gm gd by (simp add: group_def truthy_int_def)
  then have ti: "try_iso v = Some v" using re v by simp
  show ?thesis using ne st ti can by simp
qed


lemma sniff_shape:
  assumes "re_search sniff_re s = Some (w, g)"
  shows "\<exists>c d. (w = ''19'' @ [c, d] \<or> w = ''20'' @ [c, d]) \<and> is_digit c \<and> is_digit d"
proof -
  from re_search_match [OF assms] obtain t where "re_match sniff_re t = Some (w, g)" ..
  from re_match_in [OF this] obtain rest where "(w, rest, g) \<in> set (ends sniff_re t)" ..
  then have "\<exists>w2. (w = ''19'' @ w2 \<or> w = ''20'' @ w2) \<and> length w2 = 2 \<and> list_all is_digit w2"
    unfolding sniff_re_def in_ends_Cat in_ends_Grp in_ends_Alt in_lit in_ends_Cls in_reps
    by auto
  then obtain w2 where w: "w = ''19'' @ w2 \<or> w = ''20'' @ w2" and w2: "length w2 = 2" "list_all is_digit w2"
    by blast
  from len2 [OF w2(1)] obtain c d where "w2 = [c, d]" by blast
  then show ?thesis using w w2 by auto
qed

lemma sniff_int:
  assumes "re_search sniff_re s = Some (w, g)"
  shows "py_int w = Some (int (dec_val w)) \<and> 0 < dec_val w \<and> dec_val w \<le> 9999"
proof -
  from sniff_shape [OF assms] obtain c d where
    w: "w = ''19'' @ [c, d] \<or> w = ''20'' @ [c, d]" and cd: "is_digit c" "is_digit d" by blast
  have dg: "list_all is_digit w" "w \<noteq> []" "length w = 4" using w cd by (auto simp: is_digit_def)
  have p: "py_int w = Some (int (dec_val w))" using dg(1,2) by (rule py_int_digits)
  have "dec_val w < 10 ^ 4" using dec_val_bound [OF dg(1)] dg(3) by simp
  moreover have "0 < dec_val w" using w by (auto simp: dec_val_def digit_val_def)
  ultimately show ?thesis using p by simp
qed

subsection \<open>The normalizer\<close>



lemma normalize_cases: "\<exists>v. normalize_date_string raw = Inr v \<and> (v = [] \<or> canon_out v)"
proof (cases "raw = []")
  case True
  then show ?thesis by (simp add: normalize_date_string_def)
next
  case False
  let ?s = "strip raw"
  show ?thesis
  proof (cases "first_parse [try_iso, try_month_day_year, try_year_month, try_year_only] ?s")
    case (Some v)
    from first_parse_Some [OF Some] have "canon_out v"
      using try_iso_out try_month_day_year_out try_year_month_out try_year_only_out by auto
    then show ?thesis using False Some by (simp add: normalize_date_string_def)
  next
    case np: None
    show ?thesis
    proof (cases "re_search sniff_re ?s")
      case None
      then show ?thesis using False np by (simp add: normalize_date_string_def)
    next
      case (Some m)
      obtain g0 g where m: "m = (g0, g)" by (cases m)
      from sniff_int [OF Some [unfolded m]]
      have p: "py_int g0 = Some (int (dec_val g0))" and b: "0 < dec_val g0" "dec_val g0 \<le> 9999"
        by auto
      have "canon_out (fmt_date (int (dec_val g0)) (Some 1) (Some 1))"
        by (rule canon_outI) (use b in simp)
      then show ?thesis using False np Some m p by (simp add: normalize_date_string_def)
    qed
  qed
qed

lemma normalize_canon: "canon_out v \<Longrightarrow> normalize_date_string v = Inr v"
  using canon_out_props [of v] by (simp add: normalize_date_string_def)




lemma ex_unknown:
  "normalize_date_string '''' = Inr ''''"
  "normalize_date_string ''unknown'' = Inr ''''"
  "normalize_date_string ''circa then'' = Inr ''''"
  by code_simp+

subsection \<open>The matcher without backtracking finds the first match\<close>








subsection \<open>What a match of each pattern looks like\<close>














subsection \<open>Every string of a form is matched\<close>























subsection \<open>The forms exclude each other\<close>













subsection \<open>What each recognizer accepts\<close>



















subsection \<open>What the search of the fallback finds\<close>










subsection \<open>The claims about the normalizer\<close>



text \<open>
  Claim C6. The normalizer returns a value on every string, never an error: either the
  empty string or a canonical date. The empty string, \<^verbatim>\<open>unknown\<close> and \<^verbatim>\<open>circa then\<close> give the
  empty string.
\<close>

theorem normalizer_total:
  "(\<forall>raw. \<exists>v. normalize_date_string raw = Inr v \<and> (v = [] \<or> is_canonical v))
   \<and> normalize_date_string '''' = Inr ''''
   \<and> normalize_date_string ''unknown'' = Inr ''''
   \<and> normalize_date_string ''circa then'' = Inr ''''"
  using normalize_cases canon_out_props ex_unknown by metis

text \<open>
  Claim C10. Normalizing twice is normalizing once: the result of the normalizer is
  returned unchanged when it is normalized again.
\<close>

theorem normalizer_idempotent:
  "\<exists>v. normalize_date_string s = Inr v \<and> normalize_date_string v = Inr v"
proof -
  from normalize_cases [of s] obtain v where
    v: "normalize_date_string s = Inr v" and c: "v = [] \<or> canon_out v" by blast
  from c have "normalize_date_string v = Inr v"
  proof
    assume "v = []" then show ?thesis by (simp add: normalize_date_string_def)
  next
    assume "canon_out v" then show ?thesis by (rule normalize_canon)
  qed
  with v show ?thesis by blast
qed

lemma fmt_date_fields:
  assumes "0 \<le> y" "y \<le> 9999"
  shows "is_canonical (fmt_date y m d)
         \<and> int (month_of (fmt_date y m d)) = max 1 (min 12 (or_1 m))
         \<and> int (day_of (fmt_date y m d)) = max 1 (min 28 (or_1 d))"
proof -
  define mm where "mm = max 1 (min 12 (or_1 m))"
  define dd where "dd = max 1 (min 28 (or_1 d))"
  from fmt_date_shape [OF assms, of m d] obtain Y M D where
    f: "fmt_date y m d = Y @ ''-'' @ M @ ''-'' @ D"
    and Y: "length Y = 4" "list_all is_digit Y"
    and M: "length M = 2" "list_all is_digit M" "int (dec_val M) = mm"
    and D: "length D = 2" "list_all is_digit D" "int (dec_val D) = dd"
    unfolding mm_def dd_def by blast
  have mb: "1 \<le> mm" "mm \<le> 12" "1 \<le> dd" "dd \<le> 28" by (auto simp: mm_def dd_def)
  have "is_canonical (Y @ ''-'' @ M @ ''-'' @ D)"
    unfolding is_canonical_def month_of_def day_of_def
    using Y M D mb by (simp add: nth_append)
  moreover have "int (month_of (Y @ ''-'' @ M @ ''-'' @ D)) = mm"
    unfolding month_of_def using Y M by simp
  moreover have "int (day_of (Y @ ''-'' @ M @ ''-'' @ D)) = dd"
    unfolding day_of_def using Y M D by simp
  ultimately show ?thesis unfolding f mm_def dd_def by simp
qed

lemma ex_clamped:
  "normalize_date_string ''1990/3/45'' = Inr ''1990-03-28''"
  "fmt_date 1990 (Some 0) (Some 45) = ''1990-01-28''"
  by code_simp+

text \<open>
  Claim C5. Every non-empty result of the normalizer has the form of four digits, a dash,
  two digits, a dash and two digits, with the month between 01 and 12 and the day between
  01 and 28. The formatter clamps the month into 1..12 and the day into 1..28, and takes 1
  for a month or day that is absent or zero.
\<close>

theorem normalized_date_canonical_form:
  "(normalize_date_string raw = Inr v \<and> v \<noteq> [] \<longrightarrow> is_canonical v)
   \<and> (0 \<le> y \<and> y \<le> 9999 \<longrightarrow>
        is_canonical (fmt_date y m d)
        \<and> int (month_of (fmt_date y m d))
            = max 1 (min 12 (case m of None \<Rightarrow> 1 | Some k \<Rightarrow> if k = 0 then 1 else k))
        \<and> int (day_of (fmt_date y m d))
            = max 1 (min 28 (case d of None \<Rightarrow> 1 | Some k \<Rightarrow> if k = 0 then 1 else k)))"
proof -
  have a: "normalize_date_string raw = Inr v \<and> v \<noteq> [] \<longrightarrow> is_canonical v"
    using normalize_cases [of raw] canon_out_props [of v] by auto
  have b: "0 \<le> y \<and> y \<le> 9999 \<longrightarrow>
        is_canonical (fmt_date y m d)
        \<and> int (month_of (fmt_date y m d))
            = max 1 (min 12 (case m of None \<Rightarrow> 1 | Some k \<Rightarrow> if k = 0 then 1 else k))
        \<and> int (day_of (fmt_date y m d))
            = max 1 (min 28 (case d of None \<Rightarrow> 1 | Some k \<Rightarrow> if k = 0 then 1 else k))"
    using fmt_date_fields [of y m d] unfolding or_1_def by blast
  show ?thesis using a b by (rule conjI)
qed

theorem normalized_date_canonical_form_witness:
  "normalize_date_string ''1990/3/45'' = Inr ''1990-03-28'' \<and> ''1990-03-28'' \<noteq> []
   \<and> is_canonical ''1990-03-28''
   \<and> (0::int) \<le> 1990 \<and> (1990::int) \<le> 9999
   \<and> is_canonical ''1990-01-28''
   \<and> int (month_of ''1990-01-28'') = 1 \<and> int (day_of ''1990-01-28'') = 28"
  using normalized_date_canonical_form [of "''1990/3/45''" "''1990-03-28''" 1990 "Some 0" "Some 45"]
    ex_clamped
  by simp

section \<open>Properties of the merge\<close>

lemma ex_acme:
  "dedupe_records acme_records
   = [\<lparr>company_name = ''Acme Inc.'', founding_date = ''1990-01-01'',
        founders = [''Jane'', ''Bob'']\<rparr>]"
  by code_simp

lemma ex_zeta:
  "dedupe_records zeta_records
   = [\<lparr>company_name = ''acme'', founding_date = [], founders = [''Bob'']\<rparr>,
      \<lparr>company_name = ''Zeta'', founding_date = [], founders = []\<rparr>]"
  by code_simp

lemma ex_norm:
  "normalize_date_string ''1990'' = Inr ''1990-01-01''"
  "normalize_date_string ''1990-03-05'' = Inr ''1990-03-05''"
  by code_simp+

lemma md_cases:
  "(a \<noteq> [] \<and> b \<noteq> [] \<longrightarrow> merge_date a b = min a b) \<and> (a \<noteq> [] \<and> b = [] \<longrightarrow> merge_date a b = a)
   \<and> (a = [] \<and> b \<noteq> [] \<longrightarrow> merge_date a b = b) \<and> (a = [] \<and> b = [] \<longrightarrow> merge_date a b = [])"
  by (simp add: merge_date_def)

lemma foldl_merge_date:
  "foldl merge_date d ds = earliest (filter (\<lambda>x. x \<noteq> []) (d # ds))"
proof (induction ds arbitrary: d)
  case Nil
  show ?case by (simp add: earliest_def)
next
  case (Cons x ds)
  let ?S = "set (filter (\<lambda>x. x \<noteq> []) ds)"
  have fin: "finite ?S" by simp
  show ?case
  proof (cases "d \<noteq> [] \<and> x \<noteq> []")
    case True
    then have m: "merge_date d x = min d x" "min d x \<noteq> []" by (auto simp: merge_date_def min_def)
    show ?thesis
    proof (cases "?S = {}")
      case e: True
      then have "filter (\<lambda>x. x \<noteq> []) ds = []" by simp
      then show ?thesis using True m Cons.IH [of "min d x"] by (simp add: earliest_def)
    next
      case False
      then show ?thesis using True m Cons.IH [of "min d x"] fin
        by (simp add: earliest_def Min_insert min.assoc del: set_filter)
    qed
  next
    case False
    then show ?thesis using Cons.IH [of "merge_date d x"] by (auto simp: merge_date_def)
  qed
qed

lemma dict_set_keys:
  "map fst (dict_set bn k v) = (case map_of bn k of None \<Rightarrow> map fst bn @ [k] | Some _ \<Rightarrow> map fst bn)"
  by (induction bn) (auto split: option.splits)

lemma map_of_dict_set: "map_of (dict_set bn k v) = (map_of bn)(k \<mapsto> v)"
  by (induction bn) (auto simp: fun_eq_iff)

lemma dict_set_new: "k \<notin> set (map fst bn) \<Longrightarrow> dict_set bn k v = bn @ [(k, v)]"
  by (induction bn) auto

lemma dict_set_entries: "set (dict_set bn k v) \<subseteq> insert (k, v) (set bn)"
  by (induction bn) (auto split: if_splits)

lemma add_founders_mem: "x \<in> set (add_founders seen acc fs) \<Longrightarrow> x \<in> set acc \<or> x \<in> set fs"
proof (induction fs arbitrary: seen acc)
  case Nil
  then show ?case by simp
next
  case (Cons f fs)
  show ?case
  proof (cases "casefold f \<notin> seen")
    case True
    then have "x \<in> set (add_founders (insert (casefold f) seen) (acc @ [f]) fs)"
      using Cons.prems by simp
    from Cons.IH [OF this] show ?thesis by auto
  next
    case False
    then have "x \<in> set (add_founders seen acc fs)" using Cons.prems by simp
    from Cons.IH [OF this] show ?thesis by auto
  qed
qed

lemma add_founders_set: "set (add_founders seen acc fs) \<subseteq> set acc \<union> set fs"
  using add_founders_mem by blast

lemma merge_date_in: "merge_date a b = a \<or> merge_date a b = b"
  by (auto simp: merge_date_def min_def)

lemma step_unnamed: "\<not> named r \<Longrightarrow> dedupe_step bn r = bn"
  by (simp add: dedupe_step_def named_def)

lemma step_keys:
  "map fst (dedupe_step bn r) =
     (if named r \<and> map_of bn (record_key r) = None then map fst bn @ [record_key r] else map fst bn)"
proof (cases "named r")
  case False
  then show ?thesis by (simp add: step_unnamed)
next
  case True
  then show ?thesis
    by (cases "map_of bn (record_key r)")
       (simp_all add: dedupe_step_def named_def record_key_def Let_def dict_set_keys)
qed

lemma step_distinct: "distinct (map fst bn) \<Longrightarrow> distinct (map fst (dedupe_step bn r))"
  by (simp add: step_keys map_of_eq_None_iff)

lemma step_ok:
  assumes "list_all entry_ok bn"
  shows "list_all entry_ok (dedupe_step bn r)"
proof (cases "named r")
  case False
  then show ?thesis using assms by (simp add: step_unnamed)
next
  case True
  define name where "name = strip (or_empty (raw_company_name r))"
  define fs where "fs = filter (\<lambda>f. f \<noteq> []) (or_empty (raw_founders r))"
  define date where "date = strip (or_empty (raw_founding_date r))"
  have n: "name \<noteq> []" "strip name = name" using True by (auto simp: name_def named_def strip_idem)
  have d: "strip date = date" by (simp add: date_def strip_idem)
  have f: "[] \<notin> set fs" by (simp add: fs_def)
  show ?thesis
  proof (cases "map_of bn (casefold name)")
    case None
    have "entry_ok (casefold name, \<lparr>company_name = name, founding_date = date, founders = fs\<rparr>)"
      using n d f by (simp add: entry_ok_def clean_def)
    moreover have "dedupe_step bn r
        = dict_set bn (casefold name) \<lparr>company_name = name, founding_date = date, founders = fs\<rparr>"
      using None n by (simp add: dedupe_step_def Let_def name_def fs_def date_def)
    ultimately show ?thesis using assms dict_set_entries [of bn "casefold name"]
      by (auto simp: list_all_iff)
  next
    case (Some e)
    then have "(casefold name, e) \<in> set bn" by (rule map_of_SomeD)
    then have e: "entry_ok (casefold name, e)" using assms by (auto simp: list_all_iff)
    let ?e' = "e\<lparr>founders := merge_founders (founders e) fs,
                  founding_date := merge_date (founding_date e) date\<rparr>"
    have "set (merge_founders (founders e) fs) \<subseteq> set (founders e) \<union> set fs"
      unfolding merge_founders_def by (rule add_founders_set)
    then have 1: "[] \<notin> set (merge_founders (founders e) fs)"
      using e f by (auto simp: entry_ok_def clean_def)
    have 2: "strip (merge_date (founding_date e) date) = merge_date (founding_date e) date"
      using merge_date_in [of "founding_date e" date] e d by (auto simp: entry_ok_def clean_def)
    have "entry_ok (casefold name, ?e')" using e 1 2 by (simp add: entry_ok_def clean_def)
    moreover have "dedupe_step bn r = dict_set bn (casefold name) ?e'"
      using Some n by (simp add: dedupe_step_def Let_def name_def fs_def date_def)
    ultimately show ?thesis using assms dict_set_entries [of bn "casefold name"]
      by (auto simp: list_all_iff)
  qed
qed

lemma run_ok: "list_all entry_ok bn \<Longrightarrow> list_all entry_ok (foldl dedupe_step bn rs)"
  by (induction rs arbitrary: bn) (simp_all add: step_ok)

lemma run_distinct: "distinct (map fst bn) \<Longrightarrow> distinct (map fst (foldl dedupe_step bn rs))"
  by (induction rs arbitrary: bn) (simp_all add: step_distinct)

lemma step_keyset:
  "fst ` set (dedupe_step bn r) = fst ` set bn \<union> (if named r then {record_key r} else {})"
proof (cases "map_of bn (record_key r)")
  case None
  have "set (map fst (dedupe_step bn r))
          = set (map fst bn) \<union> (if named r then {record_key r} else {})"
    unfolding step_keys using None by auto
  then show ?thesis by simp
next
  case (Some e)
  then have "(record_key r, e) \<in> set bn" by (rule map_of_SomeD)
  then have i: "record_key r \<in> fst ` set bn" by (rule rev_image_eqI) simp
  have "set (map fst (dedupe_step bn r)) = set (map fst bn)"
    unfolding step_keys using Some by simp
  then show ?thesis using i by auto
qed

lemma run_keys:
  "fst ` set (foldl dedupe_step bn rs) = fst ` set bn \<union> record_key ` {r \<in> set rs. named r}"
proof (induction rs arbitrary: bn)
  case Nil
  show ?case by simp
next
  case (Cons r rs)
  have "fst ` set (foldl dedupe_step (dedupe_step bn r) rs)
          = fst ` set bn \<union> (if named r then {record_key r} else {})
              \<union> record_key ` {r \<in> set rs. named r}"
    unfolding Cons.IH step_keyset ..
  also have "\<dots> = fst ` set bn \<union> record_key ` {x \<in> set (r # rs). named x}" by auto
  finally show ?case by simp
qed

lemma run_filter: "foldl dedupe_step bn rs = foldl dedupe_step bn (filter named rs)"
  by (induction rs arbitrary: bn) (simp_all add: step_unnamed)

lemma step_date_at:
  "date_at (dedupe_step bn r) k =
     (if named r \<and> record_key r = k
      then Some (case date_at bn k of None \<Rightarrow> record_date r | Some d \<Rightarrow> merge_date d (record_date r))
      else date_at bn k)"
  by (auto simp: dedupe_step_def date_at_def named_def record_key_def record_date_def Let_def
      map_of_dict_set split: option.splits)

lemma run_date_at:
  "date_at (foldl dedupe_step bn rs) k = fold_dates (date_at bn k) (map record_date (group_of k rs))"
proof (induction rs arbitrary: bn)
  case Nil
  show ?case by (cases "date_at bn k") (simp_all add: group_of_def)
next
  case (Cons r rs)
  show ?case
  proof (cases "named r \<and> record_key r = k")
    case True
    then have g: "group_of k (r # rs) = r # group_of k rs" by (simp add: group_of_def)
    show ?thesis unfolding g using True Cons.IH [of "dedupe_step bn r"]
      by (cases "date_at bn k") (simp_all add: step_date_at)
  next
    case False
    then have g: "group_of k (r # rs) = group_of k rs" by (auto simp: group_of_def)
    show ?thesis unfolding g using False Cons.IH [of "dedupe_step bn r"]
      by (auto simp: step_date_at)
  qed
qed

lemma out_entries:
  assumes "x \<in> set (dedupe_records rs)"
  shows "map_of (foldl dedupe_step [] rs) (casefold (company_name x)) = Some x \<and> clean x"
proof -
  let ?bn = "foldl dedupe_step [] rs"
  have ok: "list_all entry_ok ?bn" by (rule run_ok) simp
  have di: "distinct (map fst ?bn)" by (rule run_distinct) simp
  from assms obtain k where k: "(k, x) \<in> set ?bn" by (auto simp: dedupe_records_def)
  then have e: "entry_ok (k, x)" using ok by (auto simp: list_all_iff)
  then have "k = casefold (company_name x)" "clean x" by (auto simp: entry_ok_def)
  then show ?thesis using k di by simp
qed

lemma out_date:
  assumes "x \<in> set (dedupe_records rs)"
  shows "founding_date x = earliest (group_dates (casefold (company_name x)) rs)"
proof -
  let ?k = "casefold (company_name x)"
  from out_entries [OF assms] have m: "map_of (foldl dedupe_step [] rs) ?k = Some x" by simp
  have d: "date_at (foldl dedupe_step [] rs) ?k = Some (founding_date x)"
    unfolding date_at_def m by simp
  have e: "date_at [] ?k = None" by (simp add: date_at_def)
  have f: "fold_dates None (map record_date (group_of ?k rs)) = Some (founding_date x)"
    using run_date_at [of "[]" rs ?k] unfolding d e by simp
  show ?thesis
  proof (cases "map record_date (group_of ?k rs)")
    case Nil
    then show ?thesis using f by simp
  next
    case (Cons d ds)
    then show ?thesis using f by (simp add: foldl_merge_date group_dates_def)
  qed
qed

lemma out_keys:
  "map (\<lambda>x. casefold (company_name x)) (map snd (foldl dedupe_step [] rs))
     = map fst (foldl dedupe_step [] rs)"
proof -
  have ok: "list_all entry_ok (foldl dedupe_step [] rs)" by (rule run_ok) simp
  then show ?thesis by (auto simp: list_all_iff entry_ok_def)
qed

lemma out_sorted: "sorted (map (\<lambda>x. casefold (company_name x)) (dedupe_records rs))"
  unfolding dedupe_records_def by (rule sorted_sort_key)

lemma out_distinct: "distinct (map (\<lambda>x. casefold (company_name x)) (dedupe_records rs))"
proof -
  let ?f = "\<lambda>x. casefold (company_name x)"
  define xs where "xs = map snd (foldl dedupe_step [] rs)"
  have "distinct (map ?f xs)" unfolding xs_def out_keys by (rule run_distinct) simp
  then have "distinct xs \<and> inj_on ?f (set xs)" by (simp only: distinct_map)
  then have "distinct (sort_key ?f xs) \<and> inj_on ?f (set (sort_key ?f xs))" by simp
  then have "distinct (map ?f (sort_key ?f xs))" by (simp only: distinct_map)
  then show ?thesis unfolding dedupe_records_def xs_def .
qed

lemma out_keyset:
  "(\<lambda>x. casefold (company_name x)) ` set (dedupe_records rs) = record_key ` {r \<in> set rs. named r}"
proof -
  have "(\<lambda>x. casefold (company_name x)) ` set (dedupe_records rs)
          = set (map (\<lambda>x. casefold (company_name x)) (map snd (foldl dedupe_step [] rs)))"
    by (simp add: dedupe_records_def image_image)
  also have "\<dots> = fst ` set (foldl dedupe_step [] rs)" unfolding out_keys by simp
  also have "\<dots> = record_key ` {r \<in> set rs. named r}" by (simp add: run_keys)
  finally show ?thesis .
qed

lemma out_filter: "dedupe_records rs = dedupe_records (filter named rs)"
  unfolding dedupe_records_def by (subst run_filter) simp

lemma refeed:
  assumes "list_all clean ys" "distinct (map (\<lambda>x. casefold (company_name x)) ys)"
    "(\<lambda>x. casefold (company_name x)) ` set ys \<inter> fst ` set bn = {}"
  shows "foldl dedupe_step bn (map as_raw ys) = bn @ map (\<lambda>x. (casefold (company_name x), x)) ys"
  using assms
proof (induction ys arbitrary: bn)
  case Nil
  show ?case by simp
next
  case (Cons y ys)
  let ?k = "casefold (company_name y)"
  have c: "clean y" using Cons.prems(1) by simp
  have nk: "?k \<notin> fst ` set bn" using Cons.prems(3) by auto
  then have none: "map_of bn ?k = None" by (simp add: map_of_eq_None_iff)
  have fl: "filter (\<lambda>f. f \<noteq> []) (founders y) = founders y"
    using c by (auto simp: clean_def filter_id_conv)
  have rec: "\<lparr>company_name = company_name y, founding_date = founding_date y,
               founders = founders y\<rparr> = y"
    by simp
  have "dedupe_step bn (as_raw y)
          = dict_set bn ?k \<lparr>company_name = company_name y, founding_date = founding_date y,
                              founders = founders y\<rparr>"
    using c none fl by (simp add: dedupe_step_def as_raw_def or_empty_def clean_def Let_def)
  also have "\<dots> = dict_set bn ?k y" by (simp only: rec)
  also have "\<dots> = bn @ [(?k, y)]" using nk by (simp add: dict_set_new)
  finally have st: "dedupe_step bn (as_raw y) = bn @ [(?k, y)]" .
  have 1: "list_all clean ys" using Cons.prems(1) by simp
  have 2: "distinct (map (\<lambda>x. casefold (company_name x)) ys)" using Cons.prems(2) by simp
  have 3: "(\<lambda>x. casefold (company_name x)) ` set ys \<inter> fst ` set (bn @ [(?k, y)]) = {}"
    using Cons.prems(2,3) by auto
  show ?case using Cons.IH [OF 1 2 3] st by simp
qed

lemma out_idem: "dedupe_records (map as_raw (dedupe_records rs)) = dedupe_records rs"
proof -
  let ?f = "\<lambda>x. casefold (company_name x)"
  let ?out = "dedupe_records rs"
  have c: "list_all clean ?out" using out_entries [of _ rs] by (auto simp: list_all_iff)
  have "foldl dedupe_step [] (map as_raw ?out) = [] @ map (\<lambda>x. (?f x, x)) ?out"
    by (rule refeed [OF c out_distinct]) simp
  then have "map snd (foldl dedupe_step [] (map as_raw ?out)) = ?out" by (simp add: comp_def)
  then have "dedupe_records (map as_raw ?out) = sort_key ?f ?out" by (simp add: dedupe_records_def)
  also have "\<dots> = ?out" by (rule sort_key_id_if_sorted) (rule out_sorted)
  finally show ?thesis .
qed

subsection \<open>The claims about the merge\<close>

text \<open>
  Claim C1. In the output of the merge the founding date of a company is the
  lexicographically least of the non-empty dates of the records of its group, and the
  empty string when the group has none; the dates are read trimmed, which changes no
  result of the normalizer. One step of the merge keeps the smaller of two non-empty
  dates and the non-empty one of two dates when only one is. The two records of the
  example, their dates \<^verbatim>\<open>1990\<close> and \<^verbatim>\<open>1990-03-05\<close> normalized, merge to the single record
  \<^verbatim>\<open>Acme Inc.\<close>, \<^verbatim>\<open>1990-01-01\<close>, founders Jane and Bob.
\<close>

theorem merged_date_is_earliest:
  "(\<forall>x \<in> set (dedupe_records rs).
      founding_date x = earliest (group_dates (casefold (company_name x)) rs))
   \<and> (a \<noteq> [] \<and> b \<noteq> [] \<longrightarrow> merge_date a b = min a b)
   \<and> (a \<noteq> [] \<and> b = [] \<longrightarrow> merge_date a b = a)
   \<and> (a = [] \<and> b \<noteq> [] \<longrightarrow> merge_date a b = b)
   \<and> (a = [] \<and> b = [] \<longrightarrow> merge_date a b = [])
   \<and> (normalize_date_string s = Inr v \<longrightarrow> strip v = v)
   \<and> normalize_date_string ''1990'' = Inr ''1990-01-01''
   \<and> normalize_date_string ''1990-03-05'' = Inr ''1990-03-05''
   \<and> dedupe_records acme_records
       = [\<lparr>company_name = ''Acme Inc.'', founding_date = ''1990-01-01'',
            founders = [''Jane'', ''Bob'']\<rparr>]"
proof -
  have 1: "\<forall>x \<in> set (dedupe_records rs).
      founding_date x = earliest (group_dates (casefold (company_name x)) rs)"
    using out_date by blast
  have 2: "normalize_date_string s = Inr v \<longrightarrow> strip v = v"
    using normalize_cases [of s] canon_out_props [of v] by (auto simp: strip_Nil)
  show ?thesis using 1 2 md_cases [of a b] ex_norm ex_acme by simp
qed

theorem merged_date_is_earliest_witness:
  "\<lparr>company_name = ''Acme Inc.'', founding_date = ''1990-01-01'', founders = [''Jane'', ''Bob'']\<rparr>
     \<in> set (dedupe_records acme_records)
   \<and> earliest (group_dates (casefold ''Acme Inc.'') acme_records) = ''1990-01-01''
   \<and> merge_date ''1990-01-01'' ''1990-03-05'' = min ''1990-01-01'' ''1990-03-05''
   \<and> merge_date ''1990-01-01'' [] = ''1990-01-01''
   \<and> merge_date [] ''1990-03-05'' = ''1990-03-05''
   \<and> merge_date [] [] = []
   \<and> normalize_date_string ''1990'' = Inr ''1990-01-01''
   \<and> strip ''1990-01-01'' = ''1990-01-01''"
proof -
  let ?r = "\<lparr>company_name = ''Acme Inc.'', founding_date = ''1990-01-01'',
             founders = [''Jane'', ''Bob'']\<rparr>"
  note t1 = merged_date_is_earliest
    [of acme_records "''1990-01-01''" "''1990-03-05''" "''1990''" "''1990-01-01''"]
  note t2 = merged_date_is_earliest
    [of acme_records "''1990-01-01''" "[]" "''1990''" "''1990-01-01''"]
  note t3 = merged_date_is_earliest
    [of acme_records "[]" "''1990-03-05''" "''1990''" "''1990-01-01''"]
  note t4 = merged_date_is_earliest [of acme_records "[]" "[]" "''1990''" "''1990-01-01''"]
  have m: "?r \<in> set (dedupe_records acme_records)" using t1 by simp
  from t1 have "\<forall>x \<in> set (dedupe_records acme_records).
      founding_date x = earliest (group_dates (casefold (company_name x)) acme_records)"
    by (rule conjunct1)
  from bspec [OF this m]
  have e: "earliest (group_dates (casefold ''Acme Inc.'') acme_records) = ''1990-01-01''" by simp
  have d1: "merge_date ''1990-01-01'' ''1990-03-05'' = min ''1990-01-01'' ''1990-03-05''"
    using t1 by simp
  have d2: "merge_date ''1990-01-01'' [] = ''1990-01-01''" using t2 by simp
  have d3: "merge_date [] ''1990-03-05'' = ''1990-03-05''" using t3 by simp
  have d4: "merge_date [] [] = []" using t4 by simp
  have n: "normalize_date_string ''1990'' = Inr ''1990-01-01''" using t1 by simp
  have s: "strip ''1990-01-01'' = ''1990-01-01''" using t1 by simp
  show ?thesis using m e d1 d2 d3 d4 n s by (simp only: simp_thms)
qed

text \<open>
  Claim C3, at an input where the program does not do what the claim says: a record that
  is the first of its group keeps its founders as they are, so two spellings of one name
  in that record both reach the output.
\<close>

theorem first_record_founders_kept_as_given:
  "dedupe_records
     [\<lparr>raw_company_name = Some ''Acme'', raw_founding_date = None,
       raw_founders = Some [''Jane'', ''jane'']\<rparr>]
   = [\<lparr>company_name = ''Acme'', founding_date = [], founders = [''Jane'', ''jane'']\<rparr>]
   \<and> \<not> distinct (map casefold [''Jane'', ''jane''])"
  by code_simp

text \<open>
  Claim C8. The output of the merge is sorted by the case-folded company name, no two of
  its records have the same case-folded name, the names are trimmed and not empty, the
  case-folded names are exactly those of the input records whose trimmed name is not
  empty, and the records with an empty or blank name change nothing.
\<close>

theorem merge_output_sorted_unique:
  "sorted (map (\<lambda>x. casefold (company_name x)) (dedupe_records rs))
   \<and> distinct (map (\<lambda>x. casefold (company_name x)) (dedupe_records rs))
   \<and> (\<lambda>x. casefold (company_name x)) ` set (dedupe_records rs)
       = record_key ` {r \<in> set rs. named r}
   \<and> (\<forall>x \<in> set (dedupe_records rs). strip (company_name x) = company_name x \<and> company_name x \<noteq> [])
   \<and> dedupe_records rs = dedupe_records (filter named rs)"
proof -
  have "\<forall>x \<in> set (dedupe_records rs). strip (company_name x) = company_name x \<and> company_name x \<noteq> []"
    using out_entries [of _ rs] by (auto simp: clean_def)
  then show ?thesis
    using out_sorted [of rs] out_distinct [of rs] out_keyset [of rs] out_filter [of rs]
    by blast
qed

theorem merge_output_sorted_unique_witness:
  "dedupe_records zeta_records
     = [\<lparr>company_name = ''acme'', founding_date = [], founders = [''Bob'']\<rparr>,
        \<lparr>company_name = ''Zeta'', founding_date = [], founders = []\<rparr>]
   \<and> sorted [casefold ''acme'', casefold ''Zeta'']
   \<and> distinct [casefold ''acme'', casefold ''Zeta'']
   \<and> strip ''acme'' = ''acme'' \<and> strip ''Zeta'' = ''Zeta''
   \<and> record_key ` {r \<in> set zeta_records. named r} = {casefold ''acme'', casefold ''Zeta''}"
  using merge_output_sorted_unique [of zeta_records] ex_zeta
  by simp

text \<open>
  Claim C9. Merging the output of a merge gives that output again, as the same list of
  records.
\<close>

theorem merge_idempotent:
  "dedupe_records (map as_raw (dedupe_records rs)) = dedupe_records rs"
  by (rule out_idem)

section \<open>Properties of the segmenter\<close>

subsection \<open>The paragraph pattern\<close>

lemma then_match_Nil: "then_match [] B = []"
  by (simp add: then_match_def)

lemma then_match_append: "then_match (A @ A') B = then_match A B @ then_match A' B"
  by (simp add: then_match_def)

lemma then_match_shift: "then_match (shift c A) B = shift c (then_match A B)"
  by (induction A) (auto simp: then_match_def shift_def)

lemma then_match_eps: "then_match [([], s, [])] B = B s"
proof -
  have "map (\<lambda>(w', r', g'). (w', r', g')) (B s) = B s" by (induction "B s") auto
  then show ?thesis by (simp add: then_match_def)
qed

lemma ends_Cat: "ends (Cat a b) s = then_match (ends a s) (ends b)"
  by (simp add: then_match_def)

lemma ends_Cls_Nil: "ends (Cls p lo hi) [] = (if lo = 0 then [([], [], [])] else [])"
  by simp

lemma ends_Cls_Cons:
  "ends (Cls p lo hi) (c # cs) =
     (if p c \<and> hi \<noteq> Some 0
      then shift c (ends (Cls p (lo - 1) (map_option (\<lambda>h. h - 1) hi)) cs) else [])
     @ (if lo = 0 then [([], c # cs, [])] else [])"
proof -
  have "\<And>X. map (\<lambda>(w, r). (w, r, [])) (map (\<lambda>(w, r). (c # w, r)) X)
          = shift c (map (\<lambda>(w, r). (w, r, [])) X)"
    by (induct_tac X) (auto simp: shift_def)
  then show ?thesis by simp
qed

lemma first_end_Nil: "first_end [] = None"
  by (simp add: first_end_def)

lemma first_end_Cons: "first_end ((w, r, g) # xs) = Some r"
  by (simp add: first_end_def)

lemma first_end_append:
  "first_end (xs @ ys) = (case first_end xs of Some r \<Rightarrow> Some r | None \<Rightarrow> first_end ys)"
  by (cases xs) (auto simp: first_end_def)

lemma first_end_shift: "first_end (shift c xs) = first_end xs"
  by (cases xs) (auto simp: first_end_def shift_def)

lemmas first_end_simps = first_end_Nil first_end_Cons first_end_append first_end_shift


lemma nl_space: "is_newline c \<Longrightarrow> is_space c"
  by (simp add: is_newline_def is_space_def)

lemma first_end_star: "first_end (ends (Cls p 0 None) s) = Some (dropWhile p s)"
proof (induction s)
  case Nil
  show ?case unfolding ends_Cls_Nil by (simp add: first_end_simps)
next
  case (Cons c cs)
  show ?case unfolding ends_Cls_Cons using Cons.IH
    by (simp add: first_end_simps del: ends.simps)
qed

lemma first_end_nl_plus:
  "first_end (ends nl_plus (c # cs)) = (if is_newline c then Some (dropWhile is_newline cs) else None)"
  unfolding ends_Cls_Cons using first_end_star [of is_newline cs]
  by (simp add: first_end_simps del: ends.simps)

lemma ends_ws_nl_cons:
  "ends (Cat ws_star nl_plus) (c # cs) =
     (if is_space c then shift c (ends (Cat ws_star nl_plus) cs) else []) @ ends nl_plus (c # cs)"
proof -
  have "ends ws_star (c # cs) = (if is_space c then shift c (ends ws_star cs) else []) @ [([], c # cs, [])]"
    unfolding ends_Cls_Cons [of is_space 0 None] by simp
  then show ?thesis
    unfolding ends_Cat by (simp add: then_match_append then_match_shift then_match_eps then_match_Nil
        del: ends.simps)
qed

lemma ends_ws_nl_Nil: "ends (Cat ws_star nl_plus) [] = []"
  by simp

lemma match_end_ws_nl: "match_end (Cat ws_star nl_plus) s = after_blank s"
proof (induction s)
  case Nil
  show ?case unfolding match_end_def ends_ws_nl_Nil by (simp add: first_end_def)
next
  case (Cons c cs)
  have ih: "first_end (ends (Cat ws_star (Cls is_newline (Suc 0) None)) cs) = after_blank cs"
    using Cons.IH by (simp add: match_end_def del: ends.simps)
  have n: "\<not> is_space c \<Longrightarrow> \<not> is_newline c" using nl_space by blast
  show ?case
    unfolding match_end_def ends_ws_nl_cons first_end_append first_end_nl_plus
    using n by (cases "is_space c") (simp_all add: first_end_simps ih del: ends.simps)
qed

lemma ends_para_cons:
  "ends para_re (c # cs) = (if is_newline c then shift c (ends (Cat ws_star nl_plus) cs) else [])"
proof -
  have z: "\<And>s. ends (Cls is_newline 0 (Some 0)) s = [([], s, [])]"
    by (case_tac s) auto
  have "ends (Cls is_newline 1 (Some 1)) (c # cs) = (if is_newline c then shift c [([], cs, [])] else [])"
    unfolding ends_Cls_Cons [of is_newline 1 "Some 1"] using z by simp
  then show ?thesis
    unfolding para_re_def ends_Cat [of "Cls is_newline 1 (Some 1)"]
    by (simp add: then_match_shift then_match_eps then_match_Nil del: ends.simps)
qed

lemma match_end_para:
  "match_end para_re s =
     (case s of [] \<Rightarrow> None | c # cs \<Rightarrow> if is_newline c then after_blank cs else None)"
proof (cases s)
  case Nil
  then show ?thesis by (simp add: match_end_def first_end_def para_re_def)
next
  case (Cons c cs)
  show ?thesis
    unfolding Cons match_end_def ends_para_cons
    using match_end_ws_nl [of cs]
    by (simp add: first_end_simps match_end_def del: ends.simps)
qed

lemma after_blank_len: "after_blank s = Some r \<Longrightarrow> length r < length s"
proof (induction s arbitrary: r)
  case Nil
  then show ?case by simp
next
  case (Cons c cs)
  show ?case
  proof (cases "after_blank cs")
    case None
    then have "r = dropWhile is_newline cs" using Cons.prems by (auto split: if_splits)
    then show ?thesis using length_dropWhile_le [of is_newline cs] by simp
  next
    case (Some r')
    then have "r = r'" using Cons.prems by (auto split: if_splits)
    then show ?thesis using Cons.IH [OF Some] by simp
  qed
qed

lemma split_para_Cons:
  "re_split_from para_re acc (c # cs) =
     (case (if is_newline c then after_blank cs else None) of
        None \<Rightarrow> re_split_from para_re (c # acc) cs
      | Some rest \<Rightarrow> rev acc # re_split_from para_re [] rest)"
proof -
  have "\<And>rest. after_blank cs = Some rest \<Longrightarrow> length rest < Suc (length cs)"
    using after_blank_len by fastforce
  then show ?thesis
    by (auto simp: match_end_para split: option.splits)
qed


lemma split_line: "CHR 0x0A \<notin> set l \<Longrightarrow> re_split_from para_re acc (l @ s) = re_split_from para_re (rev l @ acc) s"
proof (induction l arbitrary: acc)
  case Nil
  show ?case by simp
next
  case (Cons c l)
  then have "\<not> is_newline c" by (auto simp: is_newline_def)
  then have "re_split_from para_re acc ((c # l) @ s) = re_split_from para_re (c # acc) (l @ s)"
    by (simp add: split_para_Cons del: re_split_from.simps)
  then show ?case using Cons by simp
qed

lemma after_blank_line: "CHR 0x0A \<notin> set m \<Longrightarrow> after_blank m = None"
  by (induction m) (auto simp: is_newline_def)

lemma after_blank_nl: "after_blank (CHR 0x0A # s) \<noteq> None"
  by (auto simp: is_newline_def is_space_def split: option.splits)

lemma after_blank_or:
  "(case after_blank s of Some r \<Rightarrow> r | None \<Rightarrow> dropWhile is_newline s)
     = (case after_blank s of Some r \<Rightarrow> r | None \<Rightarrow> s)"
proof (cases s)
  case Nil
  then show ?thesis by simp
next
  case (Cons c cs)
  show ?thesis
  proof (cases "is_newline c")
    case True
    then have "c = CHR 0x0A" by (simp add: is_newline_def)
    then show ?thesis using Cons after_blank_nl [of cs] by (auto split: option.splits)
  next
    case False
    then show ?thesis using Cons by (simp split: option.splits)
  qed
qed

lemma after_blank_lines:
  "CHR 0x0A \<notin> set m \<Longrightarrow>
     after_blank (m @ CHR 0x0A # s) =
       (if blank m then Some (case after_blank s of Some r \<Rightarrow> r | None \<Rightarrow> s) else None)"
proof (induction m)
  case Nil
  have "after_blank (CHR 0x0A # s)
          = Some (case after_blank s of Some r \<Rightarrow> r | None \<Rightarrow> dropWhile is_newline s)"
    by (simp add: is_newline_def is_space_def split: option.splits)
  then show ?case unfolding after_blank_or by (simp add: blank_def)
next
  case (Cons c m)
  then have ih: "after_blank (m @ CHR 0x0A # s) =
       (if blank m then Some (case after_blank s of Some r \<Rightarrow> r | None \<Rightarrow> s) else None)"
    and nn: "\<not> is_newline c" by (auto simp: is_newline_def)
  show ?case using ih nn by (simp add: blank_def)
qed

lemma join_lines_Cons: "ms \<noteq> [] \<Longrightarrow> join_lines (m # ms) = m @ CHR 0x0A # join_lines ms"
  by (cases ms) auto

lemma skip_blank_ne: "ms \<noteq> [] \<Longrightarrow> skip_blank_lines ms \<noteq> []"
  by (induction ms rule: skip_blank_lines.induct) auto

lemma skip_blank_len: "length (skip_blank_lines ms) \<le> length ms"
  by (induction ms rule: skip_blank_lines.induct) auto

lemma skip_blank_set: "set (skip_blank_lines ms) \<subseteq> set ms"
  by (induction ms rule: skip_blank_lines.induct) auto

lemma after_blank_join:
  "ms \<noteq> [] \<Longrightarrow> \<forall>l \<in> set ms. CHR 0x0A \<notin> set l \<Longrightarrow>
     (case after_blank (join_lines ms) of Some r \<Rightarrow> r | None \<Rightarrow> join_lines ms)
       = join_lines (skip_blank_lines ms)"
proof (induction ms rule: skip_blank_lines.induct)
  case 1
  then show ?case by simp
next
  case (2 m)
  then show ?case by (simp add: after_blank_line)
next
  case (3 m m' ms)
  have j: "join_lines (m # m' # ms) = m @ CHR 0x0A # join_lines (m' # ms)" by simp
  have nm: "CHR 0x0A \<notin> set m" using 3(3) by simp
  show ?case
  proof (cases "blank m")
    case True
    then show ?thesis unfolding j after_blank_lines [OF nm] using 3 by simp
  next
    case False
    then show ?thesis unfolding j after_blank_lines [OF nm] by simp
  qed
qed

lemma split_single:
  "CHR 0x0A \<notin> set l \<Longrightarrow> re_split_from para_re (rev blk) (join_lines [l]) = [blk @ l]"
  using split_line [of l "rev blk" "[]"] by simp

lemma split_lines:
  assumes "CHR 0x0A \<notin> set l" "\<forall>x \<in> set (m # ms). CHR 0x0A \<notin> set x"
  shows "re_split_from para_re (rev blk) (join_lines (l # m # ms)) =
           (if blank m \<and> ms \<noteq> []
            then (blk @ l) # re_split_from para_re [] (join_lines (skip_blank_lines ms))
            else re_split_from para_re (rev (blk @ l @ [CHR 0x0A])) (join_lines (m # ms)))"
proof -
  have nm: "CHR 0x0A \<notin> set m" using assms(2) by simp
  have a: "re_split_from para_re (rev blk) (join_lines (l # m # ms))
        = re_split_from para_re (rev l @ rev blk) (CHR 0x0A # join_lines (m # ms))"
    using split_line [OF assms(1), of "rev blk" "CHR 0x0A # join_lines (m # ms)"] by simp
  have b: "re_split_from para_re (rev l @ rev blk) (CHR 0x0A # join_lines (m # ms))
        = (case after_blank (join_lines (m # ms)) of
             None \<Rightarrow> re_split_from para_re (CHR 0x0A # rev l @ rev blk) (join_lines (m # ms))
           | Some rest \<Rightarrow> (blk @ l) # re_split_from para_re [] rest)"
    by (simp add: split_para_Cons is_newline_def split: option.splits del: re_split_from.simps)
  show ?thesis
  proof (cases ms)
    case Nil
    then show ?thesis unfolding a b using nm by (simp add: after_blank_line del: re_split_from.simps)
  next
    case (Cons m' ms')
    have ne: "ms \<noteq> []" using Cons by simp
    have al: "\<forall>l \<in> set ms. CHR 0x0A \<notin> set l" using assms(2) by simp
    have j: "join_lines (m # ms) = m @ CHR 0x0A # join_lines ms" using ne by (rule join_lines_Cons)
    have c: "after_blank (join_lines (m # ms))
        = (if blank m then Some (join_lines (skip_blank_lines ms)) else None)"
      unfolding j after_blank_lines [OF nm] after_blank_join [OF ne al] ..
    show ?thesis unfolding a b c using ne by (simp del: re_split_from.simps join_lines.simps)
  qed
qed

subsection \<open>The splitter on a text given by its lines\<close>

lemma blank_simps:
  "blank []" "blank (c # l) = (is_space c \<and> blank l)" "blank (a @ b) = (blank a \<and> blank b)"
  by (auto simp: blank_def)

lemma dropWhile_blank: "blank w \<Longrightarrow> dropWhile is_space w = []"
  by (simp add: blank_def list_all_iff)

lemma strip_blank: "blank w \<Longrightarrow> strip w = []"
  unfolding strip_def by (simp only: dropWhile_blank) simp

lemma strip_blank_left: "blank w \<Longrightarrow> strip (w @ x) = strip x"
  by (simp add: strip_def blank_def list_all_iff dropWhile_append2)

lemma strip_blank_right: "blank w \<Longrightarrow> strip (x @ w) = strip x"
proof (cases "\<forall>c \<in> set x. is_space c")
  case True
  assume w: "blank w"
  have "blank x" using True by (simp add: blank_def list_all_iff)
  then have "blank (x @ w)" using w by (simp add: blank_def)
  then have "strip (x @ w) = []" by (rule strip_blank)
  moreover have "strip x = []" using \<open>blank x\<close> by (rule strip_blank)
  ultimately show ?thesis by simp
next
  case False
  assume w: "blank w"
  from False obtain c where c: "c \<in> set x" "\<not> is_space c" by blast
  have 1: "dropWhile is_space (x @ w) = dropWhile is_space x @ w"
    using c by (rule dropWhile_append1)
  have 2: "dropWhile is_space (rev w @ rev (dropWhile is_space x))
            = dropWhile is_space (rev (dropWhile is_space x))"
    by (rule dropWhile_append2) (use w in \<open>auto simp: blank_def list_all_iff\<close>)
  show ?thesis unfolding strip_def 1 using 2 by simp
qed

lemma strip_snoc_space: "is_space c \<Longrightarrow> strip (x @ [c]) = strip x"
  by (rule strip_blank_right) (simp add: blank_def)

lemma strip_cons_space: "is_space c \<Longrightarrow> strip (c # x) = strip x"
  using strip_blank_left [of "[c]" x] by (simp add: blank_def)

lemma nl_is_space: "is_space CHR 0x0A"
  by (simp add: is_space_def)

lemma runs_ne: "runs ls \<noteq> []"
  by (induction ls) (auto split: list.splits)

lemma runs_blank: "blank l \<Longrightarrow> runs (l # ls) = [] # runs ls"
  by simp

lemma runs_nonblank: "\<not> blank l \<Longrightarrow> runs ls = p # ps \<Longrightarrow> runs (l # ls) = (l # p) # ps"
  by simp

lemma trimmed_simps:
  "trimmed [] = []"
  "trimmed (p # ps) = filter (\<lambda>b. b \<noteq> []) [strip (join_lines p)] @ trimmed ps"
  "trimmed (A @ B) = trimmed A @ trimmed B"
  by (simp_all add: trimmed_def)

lemma trimmed_from_Cons:
  "trimmed_from blk (p # ps) = filter (\<lambda>b. b \<noteq> []) [strip (blk @ join_lines p)] @ trimmed ps"
  by (simp add: trimmed_from_def)

lemma trimmed_from_Nil: "trimmed_from [] ps = trimmed ps"
  by (cases ps) (simp_all add: trimmed_from_def trimmed_simps)

lemma skip_runs: "ms \<noteq> [] \<Longrightarrow> trimmed (runs (skip_blank_lines ms)) = trimmed (runs ms)"
proof (induction ms rule: skip_blank_lines.induct)
  case 1
  then show ?case by simp
next
  case (2 m)
  show ?case by simp
next
  case (3 m m' ms)
  show ?case
  proof (cases "blank m")
    case True
    then show ?thesis using 3 by (simp add: trimmed_simps strip_Nil del: runs.simps add: runs_blank)
  next
    case False
    then show ?thesis by simp
  qed
qed

lemma split_runs:
  assumes "\<forall>l \<in> set L. CHR 0x0A \<notin> set l" "L \<noteq> []" "blank blk \<or> \<not> blank (hd L) \<or> length L = 1"
  shows "filter (\<lambda>b. b \<noteq> []) (map strip (re_split_from para_re (rev blk) (join_lines L)))
           = trimmed_from blk (runs L)"
  using assms
proof (induction L arbitrary: blk rule: length_induct)
  case (1 L)
  note IH = 1(1) [rule_format]
  note free = 1(2)
  note inv = 1(4)
  show ?case
  proof (cases L)
    case Nil
    then show ?thesis using 1(3) by simp
  next
    case L: (Cons l L')
    have nl: "CHR 0x0A \<notin> set l" using free L by simp
    show ?thesis
    proof (cases L')
      case Nil
      have s: "re_split_from para_re (rev blk) (join_lines L) = [blk @ l]"
        unfolding L Nil using nl by (rule split_single)
      show ?thesis
      proof (cases "blank l")
        case True
        have r: "runs L = [[], []]" unfolding L Nil using True by simp
        have "strip (blk @ l) = strip blk" using True by (rule strip_blank_right)
        then show ?thesis unfolding s r
          by (simp add: trimmed_from_Cons trimmed_simps strip_Nil)
      next
        case False
        have r: "runs L = [[l]]" unfolding L Nil using False by simp
        show ?thesis unfolding s r by (simp add: trimmed_from_Cons trimmed_simps)
      qed
    next
      case L': (Cons m ms)
      have LL: "L = l # m # ms" using L L' by simp
      have fm: "\<forall>x \<in> set (m # ms). CHR 0x0A \<notin> set x" using free LL by simp
      obtain p ps where r: "runs ms = p # ps" using runs_ne [of ms] by (cases "runs ms") auto
      note sl = split_lines [OF nl fm, of blk]
      show ?thesis
      proof (cases "blank m \<and> ms \<noteq> []")
        case True
        then have bm: "blank m" and ne: "ms \<noteq> []" by auto
        let ?sk = "skip_blank_lines ms"
        have s: "re_split_from para_re (rev blk) (join_lines L)
                  = (blk @ l) # re_split_from para_re (rev []) (join_lines ?sk)"
          unfolding LL sl using True by simp
        have len: "length ?sk < length L" using skip_blank_len [of ms] LL by simp
        have fr: "\<forall>l \<in> set ?sk. CHR 0x0A \<notin> set l" using skip_blank_set [of ms] fm by auto
        have sne: "?sk \<noteq> []" using ne by (rule skip_blank_ne)
        have "filter (\<lambda>b. b \<noteq> []) (map strip (re_split_from para_re (rev []) (join_lines ?sk)))
                = trimmed_from [] (runs ?sk)"
          by (rule IH) (use len fr sne in \<open>auto simp: blank_simps\<close>)
        also have "\<dots> = trimmed (runs ms)" unfolding trimmed_from_Nil using ne by (rule skip_runs)
        finally have rest: "filter (\<lambda>b. b \<noteq> []) (map strip (re_split_from para_re (rev []) (join_lines ?sk)))
                = trimmed (runs ms)" .
        have rm: "runs (m # ms) = [] # runs ms" using bm by simp
        show ?thesis
        proof (cases "blank l")
          case bl: True
          have rl: "runs L = [] # [] # runs ms" unfolding LL using bl bm by simp
          have "strip (blk @ l) = strip blk" using bl by (rule strip_blank_right)
          then show ?thesis unfolding s rl using rest
            by (simp add: trimmed_from_Cons trimmed_simps strip_Nil del: re_split_from.simps)
        next
          case nbl: False
          have rl: "runs L = [l] # runs ms" unfolding LL using nbl bm by simp
          show ?thesis unfolding s rl using rest
            by (simp add: trimmed_from_Cons del: re_split_from.simps)
        qed
      next
        case False
        let ?blk' = "blk @ l @ [CHR 0x0A]"
        have s: "re_split_from para_re (rev blk) (join_lines L)
                  = re_split_from para_re (rev ?blk') (join_lines (m # ms))"
          unfolding LL sl using False by (simp only: if_False)
        have len: "length (m # ms) < length L" using LL by simp
        have inv': "blank ?blk' \<or> \<not> blank (hd (m # ms)) \<or> length (m # ms) = 1"
          using False by auto
        have ih: "filter (\<lambda>b. b \<noteq> []) (map strip (re_split_from para_re (rev ?blk') (join_lines (m # ms))))
                = trimmed_from ?blk' (runs (m # ms))"
          by (rule IH) (use len fm inv' in auto)
        have "trimmed_from ?blk' (runs (m # ms)) = trimmed_from blk (runs L)"
        proof (cases "blank m")
          case nbm: False
          have rm: "runs (m # ms) = (m # p) # ps" using nbm r by simp
          show ?thesis
          proof (cases "blank l")
            case nbl: False
            have rl: "runs L = (l # m # p) # ps" unfolding LL using nbl nbm r by simp
            show ?thesis unfolding rm rl by (simp add: trimmed_from_Cons)
          next
            case bl: True
            then have bb: "blank blk" using inv LL by simp
            have rl: "runs L = [] # (m # p) # ps" unfolding LL using bl nbm r by simp
            have b': "blank ?blk'" using bb bl by (simp add: blank_simps nl_is_space)
            have 1: "strip (?blk' @ join_lines (m # p)) = strip (join_lines (m # p))"
              using b' by (rule strip_blank_left)
            have 2: "strip blk = []" using bb by (rule strip_blank)
            show ?thesis unfolding rm rl trimmed_from_Cons 1
              by (simp add: trimmed_simps 2)
          qed
        next
          case bm: True
          then have ms: "ms = []" using False by simp
          have rm: "runs (m # ms) = [[], []]" unfolding ms using bm by simp
          have 1: "strip ?blk' = strip (blk @ l)"
            using strip_snoc_space [OF nl_is_space, of "blk @ l"] by simp
          show ?thesis
          proof (cases "blank l")
            case nbl: False
            have rl: "runs L = [[l], []]" unfolding LL ms using nbl bm by simp
            show ?thesis unfolding rm rl trimmed_from_Cons
              using 1 by (simp add: trimmed_simps strip_Nil)
          next
            case bl: True
            have rl: "runs L = [[], [], []]" unfolding LL ms using bl bm by simp
            have 2: "strip (blk @ l) = strip blk" using bl by (rule strip_blank_right)
            show ?thesis unfolding rm rl trimmed_from_Cons
              using 1 2 by (simp add: trimmed_simps strip_Nil)
          qed
        qed
        then show ?thesis unfolding s ih .
      qed
    qed
  qed
qed

subsection \<open>The splitter and the specification\<close>

lemma split_on_ne: "split_on d s \<noteq> []"
  by (induction s) (auto split: list.splits)

lemma split_on_free: "l \<in> set (split_on d s) \<Longrightarrow> d \<notin> set l"
proof (induction s arbitrary: l)
  case Nil
  then show ?case by simp
next
  case (Cons c s)
  obtain p ps where sp: "split_on d s = p # ps" using split_on_ne [of d s] by (cases "split_on d s") auto
  show ?case
  proof (cases "c = d")
    case True
    then show ?thesis using Cons by auto
  next
    case False
    then have "l = c # p \<or> l \<in> set ps" using Cons.prems sp by simp
    then show ?thesis using False Cons.IH [of p] Cons.IH [of l] sp by auto
  qed
qed

lemma join_lines_cons_char: "join_lines ((c # p) # ps) = c # join_lines (p # ps)"
  by (cases ps) auto

lemma join_split: "join_lines (split_on CHR 0x0A s) = s"
proof (induction s)
  case Nil
  show ?case by simp
next
  case (Cons c s)
  obtain p ps where sp: "split_on CHR 0x0A s = p # ps"
    using split_on_ne [of "CHR 0x0A" s] by (cases "split_on CHR 0x0A s") auto
  show ?case
  proof (cases "c = CHR 0x0A")
    case True
    then show ?thesis using Cons sp by simp
  next
    case False
    then show ?thesis using Cons sp by (simp add: join_lines_cons_char del: join_lines.simps)
  qed
qed

lemma split_is_spec: "filter (\<lambda>b. b \<noteq> []) (map strip (re_split para_re s)) = segment_spec s"
proof -
  let ?L = "seg_lines s"
  have 1: "\<forall>l \<in> set ?L. CHR 0x0A \<notin> set l" using split_on_free by (auto simp: seg_lines_def)
  have 2: "?L \<noteq> []" by (simp add: seg_lines_def split_on_ne)
  have 3: "blank [] \<or> \<not> blank (hd ?L) \<or> length ?L = 1" by (simp add: blank_simps)
  have j: "join_lines ?L = s" by (simp add: seg_lines_def join_split)
  from split_runs [OF 1 2 3] show ?thesis
    unfolding j re_split_def segment_spec_def trimmed_from_Nil by simp
qed

lemma spec_lead: "is_space c \<Longrightarrow> segment_spec (c # s) = segment_spec s"
proof -
  assume c: "is_space c"
  obtain l ls where sp: "split_on CHR 0x0A s = l # ls"
    using split_on_ne [of "CHR 0x0A" s] by (cases "split_on CHR 0x0A s") auto
  obtain p ps where r: "runs ls = p # ps" using runs_ne [of ls] by (cases "runs ls") auto
  show ?thesis
  proof (cases "c = CHR 0x0A")
    case True
    then show ?thesis
      by (simp add: segment_spec_def seg_lines_def blank_simps trimmed_simps strip_Nil)
  next
    case False
    have sl: "seg_lines (c # s) = (c # l) # ls" "seg_lines s = l # ls"
      using False sp by (simp_all add: seg_lines_def)
    show ?thesis
    proof (cases "blank l")
      case True
      then have "blank (c # l)" using c by (simp add: blank_simps)
      then show ?thesis unfolding segment_spec_def sl using True by simp
    next
      case False
      then have n: "\<not> blank (c # l)" by (simp add: blank_simps)
      have 1: "runs ((c # l) # ls) = ((c # l) # p) # ps" using n r by simp
      have 2: "runs (l # ls) = (l # p) # ps" using False r by simp
      have 3: "strip (join_lines ((c # l) # p)) = strip (join_lines (l # p))"
        unfolding join_lines_cons_char using c by (rule strip_cons_space)
      show ?thesis unfolding segment_spec_def sl 1 2 trimmed_simps 3 ..
    qed
  qed
qed

lemma spec_dropWhile: "segment_spec (dropWhile is_space s) = segment_spec s"
  by (induction s) (simp_all add: spec_lead)

lemma split_on_snoc_sep: "split_on d (s @ [d]) = split_on d s @ [[]]"
proof (induction s)
  case Nil
  show ?case by simp
next
  case (Cons c s)
  obtain p ps where sp: "split_on d s = p # ps" using split_on_ne [of d s] by (cases "split_on d s") auto
  show ?case using Cons sp by simp
qed

lemma split_on_snoc:
  "c \<noteq> d \<Longrightarrow> split_on d (s @ [c]) = butlast (split_on d s) @ [last (split_on d s) @ [c]]"
proof (induction s)
  case Nil
  then show ?case by simp
next
  case (Cons x s)
  obtain p ps where sp: "split_on d s = p # ps" using split_on_ne [of d s] by (cases "split_on d s") auto
  have ne: "split_on d (s @ [c]) \<noteq> []" by (rule split_on_ne)
  show ?case
  proof (cases "x = d")
    case True
    then show ?thesis using Cons sp by (simp add: split_on_ne)
  next
    case False
    show ?thesis
    proof (cases ps)
      case Nil
      then show ?thesis using False Cons sp by simp
    next
      case (Cons q qs)
      then show ?thesis using False Cons.IH [OF Cons.prems] sp by simp
    qed
  qed
qed

lemma runs_snoc_blank: "blank l \<Longrightarrow> runs (L @ [l]) = runs L @ [[]]"
proof (induction L)
  case Nil
  then show ?case by simp
next
  case (Cons x L)
  obtain p ps where r: "runs L = p # ps" using runs_ne [of L] by (cases "runs L") auto
  show ?case using Cons r by simp
qed

lemma runs_snoc_nonblank:
  "\<not> blank l \<Longrightarrow> runs (L @ [l]) = butlast (runs L) @ [last (runs L) @ [l]]"
proof (induction L)
  case Nil
  then show ?case by simp
next
  case (Cons x L)
  obtain p ps where r: "runs L = p # ps" using runs_ne [of L] by (cases "runs L") auto
  show ?case
  proof (cases ps)
    case Nil
    then show ?thesis using Cons r by simp
  next
    case (Cons q qs)
    then show ?thesis using Cons.IH [OF Cons.prems] r by (simp add: runs_ne)
  qed
qed

lemma join_lines_snoc: "join_lines (q @ [l]) = (if q = [] then l else join_lines q @ CHR 0x0A # l)"
  by (induction q rule: join_lines.induct) auto

lemma spec_trail: "is_space c \<Longrightarrow> segment_spec (s @ [c]) = segment_spec s"
proof -
  assume c: "is_space c"
  let ?L = "split_on CHR 0x0A s"
  show ?thesis
  proof (cases "c = CHR 0x0A")
    case True
    have "runs (?L @ [[]]) = runs ?L @ [[]]" by (rule runs_snoc_blank) (simp add: blank_simps)
    then show ?thesis unfolding segment_spec_def seg_lines_def True split_on_snoc_sep
      by (simp add: trimmed_simps strip_Nil)
  next
    case False
    have ne: "?L \<noteq> []" by (rule split_on_ne)
    define L' where "L' = butlast ?L"
    define ln where "ln = last ?L"
    have L: "?L = L' @ [ln]" using ne by (simp add: L'_def ln_def)
    have new: "split_on CHR 0x0A (s @ [c]) = L' @ [ln @ [c]]"
      using split_on_snoc [OF False, of s] by (simp add: L'_def ln_def)
    show ?thesis
    proof (cases "blank ln")
      case True
      then have "blank (ln @ [c])" using c by (simp add: blank_simps)
      then have "runs (L' @ [ln @ [c]]) = runs L' @ [[]]" by (rule runs_snoc_blank)
      moreover have "runs (L' @ [ln]) = runs L' @ [[]]" using True by (rule runs_snoc_blank)
      ultimately show ?thesis unfolding segment_spec_def seg_lines_def new L by simp
    next
      case False
      then have n: "\<not> blank (ln @ [c])" by (simp add: blank_simps)
      let ?B = "butlast (runs L')"
      let ?q = "last (runs L')"
      have 1: "runs (L' @ [ln @ [c]]) = ?B @ [?q @ [ln @ [c]]]" using n by (rule runs_snoc_nonblank)
      have 2: "runs (L' @ [ln]) = ?B @ [?q @ [ln]]" using False by (rule runs_snoc_nonblank)
      have "join_lines (?q @ [ln @ [c]]) = join_lines (?q @ [ln]) @ [c]"
        by (simp add: join_lines_snoc)
      then have 3: "strip (join_lines (?q @ [ln @ [c]])) = strip (join_lines (?q @ [ln]))"
        using strip_snoc_space [OF c] by simp
      show ?thesis unfolding segment_spec_def seg_lines_def new L 1 2 trimmed_simps 3 ..
    qed
  qed
qed

lemma spec_rev_dropWhile: "segment_spec (rev (dropWhile is_space (rev s))) = segment_spec s"
  by (induction s rule: rev_induct) (simp_all add: spec_trail)

lemma spec_strip: "segment_spec (strip s) = segment_spec s"
  unfolding strip_def by (simp add: spec_rev_dropWhile spec_dropWhile)

lemma split_paragraphs_spec: "split_paragraphs text = segment_spec text"
proof -
  have "split_paragraphs text = filter (\<lambda>b. b \<noteq> []) (map strip (re_split para_re (strip text)))"
    by (simp add: split_paragraphs_def Let_def filter_map comp_def)
  then show ?thesis by (simp add: split_is_spec spec_strip)
qed

lemma split_paragraphs_blank: "blank text \<Longrightarrow> split_paragraphs text = []"
  by (simp add: split_paragraphs_def re_split_def strip_blank strip_Nil)

lemma split_paragraphs_trimmed:
  "b \<in> set (split_paragraphs text) \<Longrightarrow> b \<noteq> [] \<and> strip b = b"
  by (auto simp: split_paragraphs_def Let_def strip_idem)

lemma ex_abc:
  "split_paragraphs ''A\<newline>\<newline>B\<newline>\<newline>C'' = [''A'', ''B'', ''C'']"
  "split_paragraphs ''  \<newline>\<newline>  '' = []"
  by code_simp+

subsection \<open>The claim about the segmenter\<close>

text \<open>
  Claim C7. On every text the segmenter returns what the specification describes: the
  text is cut at its blank lines (lines of whitespace only), the runs of consecutive
  non-blank lines are joined again and trimmed, the empty blocks are dropped and the
  order is kept. Every block returned is trimmed and not empty, and a text of
  whitespace only gives no block. The two examples of the specification hold.
\<close>

theorem segmenter_splits_on_blank_lines:
  "split_paragraphs text = segment_spec text
   \<and> (\<forall>b \<in> set (split_paragraphs text). b \<noteq> [] \<and> strip b = b)
   \<and> (list_all is_space text \<longrightarrow> split_paragraphs text = [])
   \<and> split_paragraphs ''A\<newline>\<newline>B\<newline>\<newline>C'' = [''A'', ''B'', ''C'']
   \<and> split_paragraphs ''  \<newline>\<newline>  '' = []"
  using split_paragraphs_spec [of "text"] split_paragraphs_trimmed [of _ "text"]
    split_paragraphs_blank [of "text"] ex_abc
  by (simp add: blank_def)

theorem segmenter_splits_on_blank_lines_witness:
  "list_all is_space ''  \<newline>\<newline>  '' \<and> split_paragraphs ''  \<newline>\<newline>  '' = []
   \<and> ''A'' \<in> set (split_paragraphs ''A\<newline>\<newline>B\<newline>\<newline>C'')
   \<and> strip ''A'' = ''A''"
  using segmenter_splits_on_blank_lines [of "''  \<newline>\<newline>  ''"]
    segmenter_splits_on_blank_lines [of "''A\<newline>\<newline>B\<newline>\<newline>C''"]
  by (simp add: is_space_def)

section \<open>Properties of the cleaning of an item\<close>

lemma split_commas_clean: "list_all (\<lambda>x. x \<noteq> [] \<and> strip x = x) (split_commas t)"
  by (simp add: split_commas_def list_all_iff strip_idem)

lemma truthy_strs: "list_all (\<lambda>x. x \<noteq> []) xs \<Longrightarrow> filter truthy (map JStr xs) = map JStr xs"
  by (induction xs) auto

lemma coerce_string:
  "coerce_founders jl (JStr s) =
     Inr (if startswith (strip s) CHR ''['' \<and> endswith (strip s) CHR '']''
          then (case jl (replace_quotes (strip s)) of
                  Some (JList xs) \<Rightarrow> filter truthy xs
                | _ \<Rightarrow> [JStr (strip s)])
          else map JStr (split_commas (strip s)))"
proof (cases "s = []")
  case True
  then show ?thesis
    by (simp add: coerce_founders_def strip_Nil startswith_def endswith_def split_commas_def)
next
  case False
  have t: "filter truthy (map JStr (split_commas (strip s))) = map JStr (split_commas (strip s))"
    by (rule truthy_strs) (use split_commas_clean [of "strip s"] in \<open>simp add: list_all_iff\<close>)
  show ?thesis
  proof (cases "startswith (strip s) CHR ''['' \<and> endswith (strip s) CHR '']''")
    case b: True
    then have ne: "strip s \<noteq> []" by (auto simp: startswith_def)
    show ?thesis using False b ne
      by (simp add: coerce_founders_def Let_def split: option.splits json.splits)
  next
    case nb: False
    then have c: "(startswith (strip s) CHR ''['' \<and> endswith (strip s) CHR '']'') = False"
      by simp
    show ?thesis using False by (simp add: coerce_founders_def Let_def c t)
  qed
qed

lemma ex_coerce:
  "coerce_founders json_loads_strings (JStr ''['Alice', 'Bob']'') = Inr [JStr ''Alice'', JStr ''Bob'']"
  "coerce_founders json_loads_strings (JStr ''Alice, Bob'') = Inr [JStr ''Alice'', JStr ''Bob'']"
  by code_simp+

text \<open>
  Claim C2, where it fails: a string in brackets that \<^verbatim>\<open>json.loads\<close> rejects is kept whole
  as the only founder; it is not split on commas.
\<close>

theorem bracketed_unparsed_kept_whole:
  "json_loads_strings (replace_quotes (strip ''[Alice, Bob]'')) = None
   \<and> coerce_founders json_loads_strings (JStr ''[Alice, Bob]'') = Inr [JStr ''[Alice, Bob]'']
   \<and> map JStr (split_commas (strip ''[Alice, Bob]'')) = [JStr ''[Alice'', JStr ''Bob]'']
   \<and> coerce_founders json_loads_strings (JStr ''[Alice, Bob]'')
       \<noteq> Inr (map JStr (split_commas (strip ''[Alice, Bob]'')))"
  by code_simp

text \<open>
  Claim C2 as the program has it. The founders given as one string: the string is
  trimmed; when it starts with an opening and ends with a closing bracket, its single
  quotes become double quotes and it is read as JSON, a list giving its elements and
  anything else, a failure too, the whole trimmed string as the only founder; when it is
  not in brackets it is split on commas and the pieces are trimmed; empty entries are
  dropped either way. The two examples of the specification hold.
\<close>

theorem founders_string_coercion:
  "coerce_founders jl (JStr s) =
     Inr (if startswith (strip s) CHR ''['' \<and> endswith (strip s) CHR '']''
          then (case jl (replace_quotes (strip s)) of
                  Some (JList xs) \<Rightarrow> filter truthy xs
                | _ \<Rightarrow> [JStr (strip s)])
          else map JStr (split_commas (strip s)))
   \<and> list_all (\<lambda>x. x \<noteq> [] \<and> strip x = x) (split_commas (strip s))
   \<and> coerce_founders json_loads_strings (JStr ''['Alice', 'Bob']'') = Inr [JStr ''Alice'', JStr ''Bob'']
   \<and> coerce_founders json_loads_strings (JStr ''Alice, Bob'') = Inr [JStr ''Alice'', JStr ''Bob'']"
  using coerce_string [of jl s] split_commas_clean [of "strip s"] ex_coerce by simp

end
